theory Spec2Isabelle
  imports Main
begin

section \<open>Text as the interpreter sees it\<close>

text \<open>
  The script is a Python 3 program for a POSIX host (its paths are written with
  \<^verbatim>\<open>/\<close>, its first line is a \<^verbatim>\<open>#!/bin/env\<close> line). Text is a \<^typ>\<open>string\<close>, with
  the characters of the Latin-1 range. On such a host \<^verbatim>\<open>os.linesep\<close> is the line feed,
  so text written to a file is stored as it is, while text read in the default mode has
  every line ending (\<^verbatim>\<open>\n\<close>, \<^verbatim>\<open>\r\n\<close>, \<^verbatim>\<open>\r\<close>) turned into a line feed.
\<close>
abbreviation LF :: char where "LF \<equiv> CHR 0x0A"
abbreviation CR :: char where "CR \<equiv> CHR 0x0D"

text \<open>\<^verbatim>\<open>str.isspace\<close> on one character of the Latin-1 range.\<close>

definition is_space :: "char \<Rightarrow> bool" where
  "is_space c \<longleftrightarrow> c \<in> set [CHR 0x09, CHR 0x0A, CHR 0x0B, CHR 0x0C, CHR 0x0D,
      CHR 0x1C, CHR 0x1D, CHR 0x1E, CHR 0x1F, CHR 0x20, CHR 0x85, CHR 0xA0]"

text \<open>\<^verbatim>\<open>s.strip()\<close>: leading and trailing whitespace removed.\<close>

definition strip :: "string \<Rightarrow> string" where
  "strip s = rev (dropWhile is_space (rev (dropWhile is_space s)))"

text \<open>\<^verbatim>\<open>s.split()\<close>: the maximal runs of non-whitespace characters, in order.\<close>

fun split_acc :: "string \<Rightarrow> string \<Rightarrow> string list" where
  "split_acc acc [] = (if acc = [] then [] else [rev acc])"
| "split_acc acc (c # cs) =
     (if is_space c then (if acc = [] then split_acc [] cs else rev acc # split_acc [] cs)
      else split_acc (c # acc) cs)"

definition split :: "string \<Rightarrow> string list" where
  "split s = split_acc [] s"

text \<open>\<^verbatim>\<open>s.startswith(p)\<close> and \<^verbatim>\<open>x in s\<close> (substring test).\<close>

definition startswith :: "string \<Rightarrow> string \<Rightarrow> bool" where
  "startswith s p \<longleftrightarrow> take (length p) s = p"

fun str_in :: "string \<Rightarrow> string \<Rightarrow> bool" where
  "str_in x [] = (x = [])"
| "str_in x (c # cs) = (startswith (c # cs) x \<or> str_in x cs)"

text \<open>
  \<^verbatim>\<open>f.readline()\<close> on the unread rest of a text file opened in the default mode:
  the line read, its ending translated to a line feed, and what is left unread.
  At the end of the file the line is empty.
\<close>

fun readline :: "string \<Rightarrow> string \<times> string" where
  "readline [] = ([], [])"
| "readline (c # cs) =
     (if c = LF then ([LF], cs)
      else if c = CR then ([LF], (case cs of [] \<Rightarrow> [] | d # ds \<Rightarrow> if d = LF then ds else cs))
      else (case readline cs of (l, r) \<Rightarrow> (c # l, r)))"

lemma readline_rest_less: "s \<noteq> [] \<Longrightarrow> length (snd (readline s)) < length s"
proof (induction s)
  case Nil
  then show ?case by simp
next
  case (Cons c cs)
  show ?case
  proof (cases "cs = []")
    case True
    then show ?thesis by simp
  next
    case False
    with Cons have "length (snd (readline cs)) < length cs" by simp
    then show ?thesis by (cases cs) (simp_all add: split_beta)
  qed
qed

text \<open>\<^verbatim>\<open>for line in f\<close>: the lines of a text file, read until the end of the file.\<close>

function file_lines :: "string \<Rightarrow> string list" where
  "file_lines s = (if s = [] then [] else fst (readline s) # file_lines (snd (readline s)))"
  by pat_completeness auto
termination
  by (relation "measure length") (simp_all add: readline_rest_less)

declare file_lines.simps [simp del]

section \<open>The pattern of a generated changeset\<close>

text \<open>
  The pattern given to \<^verbatim>\<open>re.search\<close> writes a backslash before \<^verbatim>\<open><\<close>, \<^verbatim>\<open>(\<close> and
  \<^verbatim>\<open>)\<close>; in Python's \<^verbatim>\<open>re\<close> that makes each of them a literal character, so the
  pattern is the literal \<^verbatim>\<open><changeSet\<close>, any characters, the literal
  \<^verbatim>\<open>author="(\<close>, any characters, the literal \<^verbatim>\<open>)-Generated"\<close>, any characters;
  \<^verbatim>\<open>.\<close> matches every character but the line feed.

  A pattern is modelled by the function that gives, for an input, what is left of it
  after each way the pattern can match at its start.
\<close>

type_synonym matcher = "string \<Rightarrow> string list"

definition lit :: "string \<Rightarrow> matcher" where
  "lit p s = (if startswith s p then [drop (length p) s] else [])"

fun dot_star :: matcher where
  "dot_star [] = [[]]"
| "dot_star (c # cs) = (c # cs) # (if c = LF then [] else dot_star cs)"

definition seq :: "matcher \<Rightarrow> matcher \<Rightarrow> matcher" where
  "seq m1 m2 s = concat (map m2 (m1 s))"

definition generated_re :: matcher where
  "generated_re =
     seq (lit ''<changeSet'') (seq dot_star (seq (lit (''author='' @ [CHR 0x22] @ ''(''))
       (seq dot_star (seq (lit ('')-Generated'' @ [CHR 0x22])) dot_star))))"

text \<open>\<^verbatim>\<open>re.search\<close> is true when the pattern matches at some position of the line.\<close>

fun re_search :: "matcher \<Rightarrow> string \<Rightarrow> bool" where
  "re_search m [] = (m [] \<noteq> [])"
| "re_search m (c # cs) = (m (c # cs) \<noteq> [] \<or> re_search m cs)"

definition is_generated :: "string \<Rightarrow> bool" where
  "is_generated line = re_search generated_re line"


section \<open>The host and the libraries\<close>

text \<open>
  The files of the working directory: a map from a path to the bytes of the file, one
  character of a \<^typ>\<open>string\<close> for each byte. An exception that nothing catches ends the
  interpreter with status 1, as \<^verbatim>\<open>sys.exit(1)\<close> does.
\<close>

type_synonym fs = "string \<rightharpoonup> string"

datatype error =
    SystemExit int
  | FileNotFoundError string
  | UnicodeDecodeError
  | AttributeError
  | OSError string

fun status_of :: "error \<Rightarrow> int" where
  "status_of (SystemExit n) = n"
| "status_of _ = 1"

text \<open>\<^verbatim>\<open>os.remove(file)\<close> raises when there is no such file.\<close>

definition os_remove :: "string \<Rightarrow> fs \<Rightarrow> error + fs" where
  "os_remove file files =
     (case files file of None \<Rightarrow> Inl (FileNotFoundError file) | Some t \<Rightarrow> Inr (files(file := None)))"

text \<open>
  What \<^verbatim>\<open>subprocess.run\<close> is given, and what the process it starts leaves: its exit
  code and the bytes of its two output streams.
\<close>

record invocation =
  argv :: "string list"
  cwd :: string
  input :: string
  env :: "string \<rightharpoonup> string"

record completed =
  returncode :: int
  stdout :: string
  stderr :: string

text \<open>
  What the host and the libraries give, the parameters of the model:

  \<^item> \<open>decode\<close>, the bytes of a file or of a stream as text in the encoding of the host,
    \<open>None\<close> when they are not valid in it (\<^verbatim>\<open>UnicodeDecodeError\<close>), and \<open>encode\<close>, text as
    bytes;
  \<^item> \<open>lines_before_error\<close>, for a file whose bytes are not valid: the lines that reading
    it in text mode yields before it raises (the library decodes a file piece by piece, so
    the lines of the pieces before the one with the invalid byte are yielded);
  \<^item> \<open>glob\<close>, the paths that \<^verbatim>\<open>glob.iglob\<close> yields, from the paths that exist and the
    pattern, in the order of the host;
  \<^item> \<open>sql\<close>, the start of the tool and the wait for its end: from the invocation and the
    files to an exception (the tool or its working directory is not there) or the completed
    process, and the files left. What the tool does to the database is not modelled;
  \<^item> \<open>environ\<close>, the environment of the process;
  \<^item> \<open>extractall\<close>, \<^verbatim>\<open>ZipFile(wallet).extractall(target)\<close>: from the archive, the target
    directory and the files to the files with the members extracted, or an exception;
  \<^item> \<^verbatim>\<open>os.path.abspath\<close> and \<^verbatim>\<open>os.path.dirname\<close>.
\<close>

record platform =
  decode :: "string \<Rightarrow> string option"
  encode :: "string \<Rightarrow> string"
  lines_before_error :: "string \<Rightarrow> string list"
  glob :: "string set \<Rightarrow> string \<Rightarrow> string list"
  sql :: "invocation \<Rightarrow> fs \<Rightarrow> (error + completed) \<times> fs"
  environ :: "string \<rightharpoonup> string"
  extractall :: "string \<Rightarrow> string \<Rightarrow> fs \<Rightarrow> error + fs"
  abspath :: "string \<Rightarrow> string"
  dirname :: "string \<Rightarrow> string"

text \<open>
  \<^verbatim>\<open>for line in open(file)\<close> on the bytes of a file: the lines yielded, and whether the
  end of the file is reached (\<open>True\<close>) or \<^verbatim>\<open>UnicodeDecodeError\<close> is raised after them
  (\<open>False\<close>).
\<close>

definition read_lines :: "platform \<Rightarrow> string \<Rightarrow> string list \<times> bool" where
  "read_lines pf data =
     (case decode pf data of
        Some content \<Rightarrow> (file_lines content, True)
      | None \<Rightarrow> (lines_before_error pf data, False))"

section \<open>The pre-processor\<close>

text \<open>
  \<^verbatim>\<open>pre_generate(directory, remove_controller)\<close>. The loop only removes files, and a
  file it removes has been yielded already, so the paths are those that
  \<^verbatim>\<open>glob.iglob(f'{directory}/**/*.xml', recursive=True)\<close> yields for the files at the start.

  The inner loop reads the lines of the open file; on a POSIX host the lines of a file
  removed meanwhile are still read. Its \<^verbatim>\<open>continue\<close> goes on with the next line. When
  the bytes of the file are not valid text, the loop handles the lines yielded before the
  error, and then the error ends the pass.
\<close>

fun scan_lines :: "string \<Rightarrow> string list \<Rightarrow> fs \<Rightarrow> (error + unit) \<times> fs" where
  "scan_lines file [] files = (Inr (), files)"
| "scan_lines file (line # rest) files =
     (if is_generated line then
        (case os_remove file files of
           Inl e \<Rightarrow> (Inl e, files)
         | Inr files' \<Rightarrow> scan_lines file rest files')
      else scan_lines file rest files)"

fun pre_generate_files ::
  "platform \<Rightarrow> string \<Rightarrow> bool \<Rightarrow> string list \<Rightarrow> fs \<Rightarrow> (error + unit) \<times> fs" where
  "pre_generate_files pf directory remove_controller [] files = (Inr (), files)"
| "pre_generate_files pf directory remove_controller (file # others) files =
     (if startswith file (directory @ ''/controller'') \<and> remove_controller then
        (case os_remove file files of
           Inl e \<Rightarrow> (Inl e, files)
         | Inr files' \<Rightarrow> pre_generate_files pf directory remove_controller others files')
      else
        (case files file of
           None \<Rightarrow> (Inl (FileNotFoundError file), files)
         | Some data \<Rightarrow>
             (case scan_lines file (fst (read_lines pf data)) files of
                (Inl e, files') \<Rightarrow> (Inl e, files')
              | (Inr u, files') \<Rightarrow>
                  if snd (read_lines pf data)
                  then pre_generate_files pf directory remove_controller others files'
                  else (Inl UnicodeDecodeError, files'))))"

definition pre_generate :: "platform \<Rightarrow> string \<Rightarrow> bool \<Rightarrow> fs \<Rightarrow> (error + unit) \<times> fs" where
  "pre_generate pf directory remove_controller files =
     pre_generate_files pf directory remove_controller
       (glob pf (dom files) (directory @ ''/**/*.xml'')) files"

text \<open>
  The generated changeset in the words of the specification, for comparison: a line with
  a changeset tag whose author attribute ends in \<^verbatim>\<open>-Generated\<close>, whatever the name before.
\<close>

fun not_quote_star :: matcher where
  "not_quote_star [] = [[]]"
| "not_quote_star (c # cs) = (c # cs) # (if c = CHR 0x22 then [] else not_quote_star cs)"

definition spec_generated_re :: matcher where
  "spec_generated_re =
     seq (lit ''<changeSet'') (seq dot_star (seq (lit (''author='' @ [CHR 0x22]))
       (seq not_quote_star (lit (''-Generated'' @ [CHR 0x22])))))"

definition spec_is_generated :: "string \<Rightarrow> bool" where
  "spec_is_generated line = re_search spec_generated_re line"

section \<open>The post-processor\<close>

text \<open>
  \<^verbatim>\<open>post_generate(directory)\<close> opens each file twice, once to read and once to update
  (\<^verbatim>\<open>r+\<close>), and writes the lines it keeps over the file it is reading. Both handles act
  on one file: the model is a store, the content of the file, with the position of the
  reader and the position of the writer. Every read and every write acts on the store at
  once (no buffer is modelled, so the reader sees whatever the writer has written).

  Writing at a position overwrites what is there and extends the file at its end; a
  position past the end leaves a gap of zero characters, as the host does.
  \<^verbatim>\<open>writer.truncate()\<close> cuts the file at the position of the writer.
\<close>

definition write_at :: "string \<Rightarrow> nat \<Rightarrow> string \<Rightarrow> string" where
  "write_at data pos s =
     take pos data @ replicate (pos - length data) (CHR 0x00) @ s @ drop (pos + length s) data"

definition truncate_at :: "string \<Rightarrow> nat \<Rightarrow> string" where
  "truncate_at data pos = take pos data @ replicate (pos - length data) (CHR 0x00)"

text \<open>
  The loop \<^verbatim>\<open>for line in reader: if line.strip(): writer.write(line)\<close>, then the
  truncation, on a file of valid text. The loop ends when the reader is at the end of the
  file. It is defined as a partial function: that it ends is proved below, from the writer
  never passing the reader.
\<close>

partial_function (option) rewrite_loop :: "string \<Rightarrow> nat \<Rightarrow> nat \<Rightarrow> string option" where
  "rewrite_loop data rpos wpos =
     (if length data \<le> rpos then Some (truncate_at data wpos)
      else (case readline (drop rpos data) of
              (line, rest) \<Rightarrow>
                if strip line \<noteq> []
                then rewrite_loop (write_at data wpos line) (length data - length rest)
                       (wpos + length line)
                else rewrite_loop data (length data - length rest) wpos))"

text \<open>
  The loop over the files. Opening a path that is not there raises. On a file whose bytes
  are not valid text the reader raises after the lines it has yielded: the lines kept among
  them have been written over the start of the file, the \<^verbatim>\<open>with\<close> statement closes the
  writer, which stores them, and \<^verbatim>\<open>writer.truncate()\<close> is not reached, so the rest of the
  file stays as it was; the exception ends the pass. The result is \<open>None\<close> if the rewriting
  of some file does not end.
\<close>

fun post_generate_files :: "platform \<Rightarrow> string list \<Rightarrow> fs \<Rightarrow> ((error + unit) \<times> fs) option" where
  "post_generate_files pf [] files = Some (Inr (), files)"
| "post_generate_files pf (file # others) files =
     (case files file of
        None \<Rightarrow> Some (Inl (FileNotFoundError file), files)
      | Some data \<Rightarrow>
          (case decode pf data of
             None \<Rightarrow>
               Some (Inl UnicodeDecodeError,
                 files(file \<mapsto> write_at data 0
                   (encode pf (concat (filter (\<lambda>line. strip line \<noteq> [])
                      (lines_before_error pf data))))))
           | Some content \<Rightarrow>
               (case rewrite_loop content 0 0 of
                  None \<Rightarrow> None
                | Some content' \<Rightarrow>
                    post_generate_files pf others (files(file \<mapsto> encode pf content')))))"

definition post_generate :: "platform \<Rightarrow> string \<Rightarrow> fs \<Rightarrow> ((error + unit) \<times> fs) option" where
  "post_generate pf directory files =
     post_generate_files pf (glob pf (dom files) (directory @ ''/**/*.xml'')) files"

text \<open>The lines that are kept, in the words of the specification: those with a character
  that is not whitespace, in their order, one after the other.\<close>

definition non_blank :: "string \<Rightarrow> bool" where
  "non_blank line \<longleftrightarrow> list_ex (\<lambda>c. \<not> is_space c) line"

definition kept_text :: "string \<Rightarrow> string" where
  "kept_text data = concat (filter non_blank (file_lines data))"

section \<open>The external tool\<close>

text \<open>
  \<^verbatim>\<open>str.splitlines()\<close> on characters of the Latin-1 range: a line ends at a line feed, a
  carriage return (with the line feed after it, if there is one), a vertical tab, a form
  feed, a file, group or record separator, or a next-line character; the endings are
  dropped.
\<close>
definition is_linebreak :: "char \<Rightarrow> bool" where
  "is_linebreak c \<longleftrightarrow> c \<in> set [CHR 0x0A, CHR 0x0B, CHR 0x0C, CHR 0x0D,
      CHR 0x1C, CHR 0x1D, CHR 0x1E, CHR 0x85]"

fun splitline :: "string \<Rightarrow> string \<times> string" where
  "splitline [] = ([], [])"
| "splitline (c # cs) =
     (if is_linebreak c then
        ([], if c = CR then (case cs of [] \<Rightarrow> [] | d # ds \<Rightarrow> if d = LF then ds else cs) else cs)
      else (case splitline cs of (l, r) \<Rightarrow> (c # l, r)))"

lemma splitline_rest_less: "s \<noteq> [] \<Longrightarrow> length (snd (splitline s)) < length s"
proof (induction s)
  case Nil
  then show ?case by simp
next
  case (Cons c cs)
  show ?case
  proof (cases "cs = []")
    case True
    then show ?thesis by simp
  next
    case False
    with Cons have "length (snd (splitline cs)) < length cs" by simp
    then show ?thesis by (cases cs) (simp_all add: split_beta)
  qed
qed

function splitlines :: "string \<Rightarrow> string list" where
  "splitlines s = (if s = [] then [] else fst (splitline s) # splitlines (snd (splitline s)))"
  by pat_completeness auto
termination
  by (relation "measure length") (simp_all add: splitline_rest_less)

declare splitlines.simps [simp del]

text \<open>\<^verbatim>\<open>s.replace(old, new)\<close>, from left to right.\<close>

function replace :: "string \<Rightarrow> string \<Rightarrow> string \<Rightarrow> string" where
  "replace old new s =
     (if old = [] then new @ concat (map (\<lambda>c. c # new) s)
      else if s = [] then []
      else if startswith s old then new @ replace old new (drop (length old) s)
      else hd s # replace old new (tl s))"
  by pat_completeness auto
termination
  by (relation "measure (\<lambda>(old, new, s). length s)") simp_all

declare replace.simps [simp del]

text \<open>
  With \<^verbatim>\<open>universal_newlines=True\<close> the output of the process is decoded as a whole, and
  then \<^verbatim>\<open>\r\n\<close> and \<^verbatim>\<open>\r\<close> are replaced by a line feed.
\<close>

definition translate_newlines :: "string \<Rightarrow> string" where
  "translate_newlines s = replace [CR] [LF] (replace [CR, LF] [LF] s)"

text \<open>
  The state of a run: the files, and the trace of what the script itself has done to the
  world outside it, in order: a test that a path exists, a file opened (with its mode), an
  archive extracted, the tool started, and the two passes over the changelog files.
\<close>

datatype event =
    PathExists string
  | OpenFile string string
  | ExtractAll string string
  | Subprocess invocation
  | PreGenerate string bool
  | PostGenerate string

record world =
  disk :: fs
  trace :: "event list"

definition emit :: "event \<Rightarrow> world \<Rightarrow> world" where
  "emit e w = w\<lparr>trace := trace w @ [e]\<rparr>"

text \<open>
  A step of the script returns a value or raises, and leaves a world; \<open>None\<close> stands for
  a step that does not return. \<open>and_then\<close> runs a second step after a first one that has
  returned a value.
\<close>

type_synonym 'a step = "world \<Rightarrow> ((error + 'a) \<times> world) option"

definition and_then :: "'a step \<Rightarrow> ('a \<Rightarrow> 'b step) \<Rightarrow> 'b step" where
  "and_then m k w =
     (case m w of
        None \<Rightarrow> None
      | Some (Inl e, w') \<Rightarrow> Some (Inl e, w')
      | Some (Inr x, w') \<Rightarrow> k x w')"

text \<open>\<^verbatim>\<open>run_sqlcl\<close>: the script given to the tool, the scan of its output, the verdict.\<close>

definition sql_cmd :: "string \<Rightarrow> string \<Rightarrow> string \<Rightarrow> string \<Rightarrow> string" where
  "sql_cmd run_as password service cmd =
     [LF] @ replicate 8 (CHR '' '') @ ''conn '' @ run_as @ ''/'' @ password @ ''@'' @ service @
     ''_high'' @ [LF] @ replicate 8 (CHR '' '') @ cmd @ [LF] @ replicate 4 (CHR '' '')"

definition error_matches :: "string list" where
  "error_matches =
     [''Error Message'', ''ORA-'', ''SQL Error'', ''Validation Failed'', ''Unexpected internal error'']"

fun scan_output :: "string list \<Rightarrow> int \<Rightarrow> int" where
  "scan_output [] exit_status = exit_status"
| "scan_output (line # rest) exit_status =
     scan_output rest (if list_ex (\<lambda>x. str_in x line) error_matches then 1 else exit_status)"

definition sqlcl_call ::
  "platform \<Rightarrow> string \<Rightarrow> string \<Rightarrow> string \<Rightarrow> string \<Rightarrow> string \<Rightarrow> string \<Rightarrow> invocation" where
  "sqlcl_call pf run_as password service path cmd tns_admin =
     (let lb_env = (environ pf)(''password'' \<mapsto> password, ''TNS_ADMIN'' \<mapsto> tns_admin)
      in \<lparr>argv = [''sql'', ''/nolog''], cwd = ''./'' @ path,
           input = sql_cmd run_as password service cmd, env = lb_env\<rparr>)"


text \<open>
  \<^verbatim>\<open>subprocess.run\<close> raises what the start of the tool raises, and raises
  \<^verbatim>\<open>UnicodeDecodeError\<close> when the bytes of one of the two streams are not valid text; the
  script catches neither.
\<close>

definition run_sqlcl ::
  "platform \<Rightarrow> string \<Rightarrow> string \<Rightarrow> string \<Rightarrow> string \<Rightarrow> string \<Rightarrow> string \<Rightarrow> unit step" where
  "run_sqlcl pf run_as password service path cmd tns_admin w =
     (let call = sqlcl_call pf run_as password service path cmd tns_admin;
          w' = emit (Subprocess call) (w\<lparr>disk := snd (sql pf call (disk w))\<rparr>)
      in case fst (sql pf call (disk w)) of
           Inl e \<Rightarrow> Some (Inl e, w')
         | Inr result \<Rightarrow>
             (case decode pf (stdout result) of
                None \<Rightarrow> Some (Inl UnicodeDecodeError, w')
              | Some out \<Rightarrow>
                  (case decode pf (stderr result) of
                     None \<Rightarrow> Some (Inl UnicodeDecodeError, w')
                   | Some err \<Rightarrow>
                       (let exit_status =
                              scan_output (filter (\<lambda>line. line \<noteq> [])
                                (splitlines (translate_newlines out))) 0
                        in if returncode result \<noteq> 0 \<or> exit_status \<noteq> 0
                           then Some (Inl (SystemExit 1), w')
                           else Some (Inr (), w')))))"

section \<open>The actions\<close>

definition os_path_join :: "string \<Rightarrow> string \<Rightarrow> string" where
  "os_path_join a b = (if a = [] then b else if last a = CHR ''/'' then a @ b else a @ ''/'' @ b)"

text \<open>
  The arguments after \<^verbatim>\<open>parse_args\<close>: the two required names, the two optional values
  (\<open>None\<close> when the flag is not given), the debug switch, and the action chosen.
\<close>

datatype action = Deploy | Generate | Destroy

record args =
  dbName :: string
  dbUser :: string
  dbPass :: "string option"
  dbWallet :: "string option"
  debug :: bool
  func :: action

definition deploy_call :: "platform \<Rightarrow> string \<Rightarrow> string \<Rightarrow> string \<Rightarrow> string \<Rightarrow> args \<Rightarrow> unit step" where
  "deploy_call pf path user password tns_admin a w =
     (let w1 = emit (PathExists (os_path_join path ''controller.xml'')) w in
      if disk w1 (os_path_join path ''controller.xml'') \<noteq> None
      then run_sqlcl pf user password (dbName a) path ''lb update -changelog-file controller.xml;''
             tns_admin w1
      else Some (Inr (), w1))"

definition deploy :: "platform \<Rightarrow> string \<Rightarrow> string \<Rightarrow> args \<Rightarrow> unit step" where
  "deploy pf password tns_admin a =
     and_then (deploy_call pf ''admin'' ''ADMIN'' password tns_admin a) (\<lambda>_.
     and_then (deploy_call pf ''schema'' (''ADMIN['' @ dbUser a @ '']'') password tns_admin a) (\<lambda>_.
     and_then (deploy_call pf ''data'' (''ADMIN['' @ dbUser a @ '']'') password tns_admin a) (\<lambda>_.
     deploy_call pf ''apex'' (''ADMIN['' @ dbUser a @ '']'') password tns_admin a)))"


definition call_pre_generate :: "platform \<Rightarrow> string \<Rightarrow> bool \<Rightarrow> unit step" where
  "call_pre_generate pf directory remove_controller w =
     (case pre_generate pf directory remove_controller (disk w) of
        (r, files') \<Rightarrow> Some (r, emit (PreGenerate directory remove_controller) (w\<lparr>disk := files'\<rparr>)))"

definition call_post_generate :: "platform \<Rightarrow> string \<Rightarrow> unit step" where
  "call_post_generate pf directory w =
     (case post_generate pf directory (disk w) of
        None \<Rightarrow> None
      | Some (r, files') \<Rightarrow> Some (r, emit (PostGenerate directory) (w\<lparr>disk := files'\<rparr>)))"

definition generate :: "platform \<Rightarrow> string \<Rightarrow> string \<Rightarrow> args \<Rightarrow> unit step" where
  "generate pf password tns_admin a =
     and_then (call_pre_generate pf ''schema'' True) (\<lambda>_.
     and_then (run_sqlcl pf (''ADMIN['' @ dbUser a @ '']'') password (dbName a) ''schema''
        ''lb generate-schema -split -grants -runonchange -fail-on-error'' tns_admin) (\<lambda>_.
     and_then (call_post_generate pf ''schema'') (\<lambda>_.
     and_then (call_pre_generate pf ''apex'' False) (\<lambda>_.
     and_then (run_sqlcl pf (''ADMIN['' @ dbUser a @ '']'') password (dbName a) ''apex''
        (''lb generate-apex-object -applicationid 103 -expaclassignments true '' @
         ''-expirnotif true -exporiginalids true -exppubreports true -expsavedreports true '' @
         ''-exptranslations true -skipexportdate true'') tns_admin) (\<lambda>_.
     call_post_generate pf ''apex'')))))"

definition destroy :: "platform \<Rightarrow> string \<Rightarrow> string \<Rightarrow> args \<Rightarrow> unit step" where
  "destroy pf password tns_admin a =
     run_sqlcl pf ''ADMIN'' password (dbName a) ''admin''
       ''lb rollback-count -changelog controller.xml -count 999;'' tns_admin"

section \<open>The main program\<close>

text \<open>
  A flag value in a test (\<^verbatim>\<open>if args.dbPass:\<close>): an absent flag and an empty value are
  both false.
\<close>

definition flag_value :: "string option \<Rightarrow> string option" where
  "flag_value v = (case v of None \<Rightarrow> None | Some s \<Rightarrow> if s = [] then None else Some s)"

text \<open>
  The password: the flag, or else the last token of the first line of \<^verbatim>\<open>.secret\<close>
  (\<^verbatim>\<open>f.readline().split()[-1]\<close>). Whatever is raised on the way (no such file, a first
  line that cannot be decoded, no token on the line) is caught, and the program exits with
  status 1.
\<close>

definition last_token :: "string \<Rightarrow> string step" where
  "last_token line w =
     (case split line of
        [] \<Rightarrow> Some (Inl (SystemExit 1), w)
      | t # ts \<Rightarrow> Some (Inr (last (t # ts)), w))"

definition read_secret :: "platform \<Rightarrow> string step" where
  "read_secret pf w =
     (let w1 = emit (OpenFile ''.secret'' ''r'') w in
      case disk w1 ''.secret'' of
        None \<Rightarrow> Some (Inl (SystemExit 1), w1)
      | Some data \<Rightarrow>
          (case decode pf data of
             Some content \<Rightarrow> last_token (fst (readline content)) w1
           | None \<Rightarrow>
               (case lines_before_error pf data of
                  [] \<Rightarrow> Some (Inl (SystemExit 1), w1)
                | line # rest \<Rightarrow> last_token line w1)))"

definition resolve_password :: "platform \<Rightarrow> args \<Rightarrow> string step" where
  "resolve_password pf a w =
     (case flag_value (dbPass a) of
        Some password \<Rightarrow> Some (Inr password, w)
      | None \<Rightarrow> read_secret pf w)"

text \<open>
  \<^verbatim>\<open>upd_sqlnet\<close>: the wallet is extracted, \<^verbatim>\<open>sqlnet.ora\<close> is read as a whole and written
  back with the directory of the wallet in it.
\<close>

definition upd_sqlnet :: "platform \<Rightarrow> string \<Rightarrow> unit step" where
  "upd_sqlnet pf wallet w =
     (let tns_admin = dirname pf (abspath pf wallet);
          ora = os_path_join tns_admin ''sqlnet.ora'';
          w1 = emit (ExtractAll wallet tns_admin) w
      in case extractall pf wallet tns_admin (disk w1) of
           Inl e \<Rightarrow> Some (Inl e, w1)
         | Inr extracted \<Rightarrow>
             (let w2 = emit (OpenFile ora ''r'') (w1\<lparr>disk := extracted\<rparr>) in
              case disk w2 ora of
                None \<Rightarrow> Some (Inl (FileNotFoundError ora), w2)
              | Some data \<Rightarrow>
                  (case decode pf data of
                     None \<Rightarrow> Some (Inl UnicodeDecodeError, w2)
                   | Some content \<Rightarrow>
                       (let s = replace (''DIRECTORY='' @ [CHR 0x22] @ ''?/network/admin'' @ [CHR 0x22])
                                  (''DIRECTORY='' @ [CHR 0x22] @ tns_admin @ [CHR 0x22])
                                  (concat (file_lines content));
                            w3 = emit (OpenFile ora ''w'') w2
                        in Some (Inr (), w3\<lparr>disk := (disk w3)(ora \<mapsto> encode pf s)\<rparr>)))))"

definition resolve_tns :: "platform \<Rightarrow> args \<Rightarrow> string step" where
  "resolve_tns pf a w =
     (case flag_value (dbWallet a) of
        Some wallet \<Rightarrow>
          and_then (upd_sqlnet pf wallet)
            (\<lambda>_ w'. Some (Inr (dirname pf (abspath pf wallet)), w')) w
      | None \<Rightarrow>
          (case environ pf ''TNS_ADMIN'' of
             None \<Rightarrow> Some (Inl (SystemExit 1), w)
           | Some tns_admin \<Rightarrow>
               (let w1 = emit (PathExists (tns_admin @ ''/tnsnames.ora'')) w in
                if disk w1 (tns_admin @ ''/tnsnames.ora'') = None
                then Some (Inl (SystemExit 1), w1)
                else Some (Inr tns_admin, w1))))"

text \<open>
  The program from the parsed arguments on. With \<^verbatim>\<open>--debug\<close> it calls
  \<^verbatim>\<open>log.getLogger()\<close> on a logger, which has no such attribute. At its end it exits with
  status 0.
\<close>

definition main :: "platform \<Rightarrow> args \<Rightarrow> unit step" where
  "main pf a w =
     (if debug a then Some (Inl AttributeError, w)
      else
        and_then (resolve_password pf a) (\<lambda>password.
        and_then (resolve_tns pf a) (\<lambda>tns_admin.
        and_then
          (case func a of
             Deploy \<Rightarrow> deploy pf password tns_admin a
           | Generate \<Rightarrow> generate pf password tns_admin a
           | Destroy \<Rightarrow> destroy pf password tns_admin a)
          (\<lambda>_ w'. Some (Inl (SystemExit 0), w')))) w)"


section \<open>Example hosts and files\<close>

text \<open>
  A host whose encoding is ASCII: the bytes below \<^verbatim>\<open>0x80\<close> are the characters, every
  other byte is invalid. (On these bytes, and on the byte \<^verbatim>\<open>0xFF\<close>, a host with UTF-8
  behaves in the same way.) Its library reads a file in pieces of 8192 bytes and decodes
  each piece when it is read: before the error it has yielded the lines that end within the
  pieces before the one with the first invalid byte. A line whose end is not yet seen
  (no line ending, or a carriage return as the last character read, which may be the first
  half of a line ending) is not yielded.
\<close>

definition is_ascii :: "char \<Rightarrow> bool" where
  "is_ascii c \<longleftrightarrow> \<not> digit7 c"

definition complete_lines :: "string \<Rightarrow> string list" where
  "complete_lines s =
     (if s \<noteq> [] \<and> last s = LF then file_lines s else butlast (file_lines s))"

definition ascii_lines_before_error :: "string \<Rightarrow> string list" where
  "ascii_lines_before_error data =
     complete_lines (take (8192 * (length (takeWhile is_ascii data) div 8192)) data)"

definition ascii_host :: platform where
  "ascii_host =
     \<lparr>decode = (\<lambda>data. if list_all is_ascii data then Some data else None),
      encode = (\<lambda>s. s),
      lines_before_error = ascii_lines_before_error,
      glob = (\<lambda>present pattern. []),
      sql = (\<lambda>call files. (Inl (FileNotFoundError ''sql''), files)),
      environ = Map.empty,
      extractall = (\<lambda>wallet target files. Inl (FileNotFoundError wallet)),
      abspath = (\<lambda>p. p), dirname = (\<lambda>p. p)\<rparr>"

text \<open>The same host with the given XML files under \<^verbatim>\<open>schema\<close>, in the given order.\<close>

definition schema_glob :: "string list \<Rightarrow> string set \<Rightarrow> string \<Rightarrow> string list" where
  "schema_glob paths present pattern = (if pattern = ''schema/**/*.xml'' then paths else [])"

definition schema_host :: "string list \<Rightarrow> platform" where
  "schema_host paths = ascii_host\<lparr>glob := schema_glob paths\<rparr>"

text \<open>The same host with a tool that starts, leaves the files alone and ends as given.\<close>

definition tool_host :: "completed \<Rightarrow> platform" where
  "tool_host result = ascii_host\<lparr>sql := (\<lambda>call files. (Inr result, files))\<rparr>"

text \<open>
  A changeset line as the database tool writes it, with the schema name in parentheses
  before \<^verbatim>\<open>-Generated\<close>; a changeset line whose author ends in \<^verbatim>\<open>-Generated\<close> with no
  parentheses; a line written by hand; and a line written by hand whose author is in
  parentheses and whose labels end in \<^verbatim>\<open>)-Generated\<close>.
\<close>

definition generated_line :: string where
  "generated_line = ''<changeSet id='' @ [CHR 0x22] @ ''1'' @ [CHR 0x22] @ '' author='' @
     [CHR 0x22] @ ''(ADMIN)-Generated'' @ [CHR 0x22] @ ''>'' @ [LF]"


definition hand_line :: string where
  "hand_line = ''<changeSet id='' @ [CHR 0x22] @ ''2'' @ [CHR 0x22] @ '' author='' @
     [CHR 0x22] @ ''jane'' @ [CHR 0x22] @ ''>'' @ [LF]"

definition labelled_line :: string where
  "labelled_line = ''<changeSet id='' @ [CHR 0x22] @ ''1'' @ [CHR 0x22] @ '' author='' @
     [CHR 0x22] @ ''(jane)'' @ [CHR 0x22] @ '' labels='' @ [CHR 0x22] @ ''(x)-Generated'' @
     [CHR 0x22] @ ''>'' @ [LF]"

text \<open>
  A host whose encoding is Latin-1: every byte is a character, so every file is valid
  text, and text is written back as the bytes it was read from.
\<close>

definition latin1_host :: "string list \<Rightarrow> platform" where
  "latin1_host paths =
     ascii_host\<lparr>decode := (\<lambda>data. Some data), lines_before_error := (\<lambda>data. []),
       glob := schema_glob paths\<rparr>"

text \<open>
  A file of 8193 bytes: three empty lines, 4093 lines \<^verbatim>\<open>x\<close>, an empty line, a line
  \<^verbatim>\<open>x\<close>, and the byte \<^verbatim>\<open>0xFF\<close>, which is the first byte of the second piece that the
  library reads; and what one and two runs of the post-processor make of it.
\<close>

definition x_lines :: "nat \<Rightarrow> string" where
  "x_lines n = concat (replicate n (''x'' @ [LF]))"

definition chunk_file :: string where
  "chunk_file = [LF, LF, LF] @ x_lines 4093 @ [LF] @ ''x'' @ [LF] @ [CHR 0xFF]"

definition chunk_file_once :: string where
  "chunk_file_once = x_lines 4094 @ [LF, LF] @ ''x'' @ [LF] @ [CHR 0xFF]"

definition chunk_file_twice :: string where
  "chunk_file_twice = x_lines 4096 @ [CHR 0xFF]"


section \<open>What the pre-processor removes and what it keeps\<close>

lemma os_remove_cases:
  "os_remove file files = Inl e \<Longrightarrow> files file = None"
  "os_remove file files = Inr files' \<Longrightarrow> files' = files(file := None)"
  by (simp_all add: os_remove_def split: option.splits)

lemma scan_lines_frame: "g \<noteq> file \<Longrightarrow> snd (scan_lines file ls files) g = files g"
proof (induction ls arbitrary: files)
  case Nil
  then show ?case by simp
next
  case (Cons l ls)
  show ?case
  proof (cases "is_generated l")
    case False
    then show ?thesis using Cons by simp
  next
    case True
    show ?thesis
    proof (cases "os_remove file files")
      case (Inl e)
      then show ?thesis using True by simp
    next
      case (Inr files')
      then have "files' = files(file := None)" by (rule os_remove_cases)
      then show ?thesis using True Inr Cons by simp
    qed
  qed
qed


lemma scan_lines_clean:
  "\<forall>l \<in> set ls. \<not> is_generated l \<Longrightarrow> scan_lines file ls files = (Inr (), files)"
  by (induction ls) simp_all



lemma pre_generate_files_keep:
  assumes "files f = Some data" and "\<forall>l \<in> set (fst (read_lines pf data)). \<not> is_generated l"
  shows "snd (pre_generate_files pf d False found files) f = Some data"
  using assms(1)
proof (induction found arbitrary: files)
  case Nil
  then show ?case by simp
next
  case (Cons p ps)
  show ?case
  proof (cases "files p")
    case None
    then show ?thesis using Cons.prems by simp
  next
    case (Some t)
    obtain r files' where sc: "scan_lines p (fst (read_lines pf t)) files = (r, files')"
      by (cases "scan_lines p (fst (read_lines pf t)) files") auto
    have kept: "files' f = Some data"
    proof (cases "f = p")
      case True
      then have "t = data" using Some Cons.prems by simp
      then have "scan_lines p (fst (read_lines pf t)) files = (Inr (), files)"
        using assms(2) by (simp add: scan_lines_clean)
      then show ?thesis using sc Cons.prems by simp
    next
      case False
      then show ?thesis
        using scan_lines_frame [of f p "fst (read_lines pf t)" files] sc Cons.prems by simp
    qed
    show ?thesis
    proof (cases r)
      case (Inl e)
      then show ?thesis using Some sc kept by simp
    next
      case (Inr u)
      then show ?thesis using Some sc kept Cons.IH [of files'] by simp
    qed
  qed
qed



section \<open>The example files\<close>

lemma is_generated_generated_line: "is_generated generated_line"
  by (simp add: is_generated_def generated_re_def generated_line_def seq_def lit_def
      startswith_def)


lemma not_is_generated_hand_line: "\<not> is_generated hand_line"
  by (simp add: is_generated_def generated_re_def hand_line_def seq_def lit_def
      startswith_def)

lemma is_generated_labelled_line: "is_generated labelled_line"
  by (simp add: is_generated_def generated_re_def labelled_line_def seq_def lit_def
      startswith_def)


lemma not_spec_is_generated_labelled_line: "\<not> spec_is_generated labelled_line"
  by (simp add: spec_is_generated_def spec_generated_re_def labelled_line_def seq_def
      lit_def startswith_def)

lemma file_lines_Nil: "file_lines [] = []"
  by (simp add: file_lines.simps)

lemma readline_one_line: "LF \<notin> set s \<Longrightarrow> CR \<notin> set s \<Longrightarrow> readline (s @ LF # r) = (s @ [LF], r)"
  by (induction s) auto

lemma file_lines_one_line:
  "LF \<notin> set s \<Longrightarrow> CR \<notin> set s \<Longrightarrow> file_lines (s @ LF # r) = (s @ [LF]) # file_lines r"
  using readline_one_line [of s r] by (subst file_lines.simps) simp

lemma file_lines_generated_line: "file_lines (generated_line @ r) = generated_line # file_lines r"
  using file_lines_one_line [of "butlast generated_line" r]
  by (simp add: generated_line_def)


lemma file_lines_hand_line: "file_lines (hand_line @ r) = hand_line # file_lines r"
  using file_lines_one_line [of "butlast hand_line" r]
  by (simp add: hand_line_def)

lemma file_lines_labelled_line: "file_lines (labelled_line @ r) = labelled_line # file_lines r"
  using file_lines_one_line [of "butlast labelled_line" r]
  by (simp add: labelled_line_def)

lemma ascii_generated_line: "list_all is_ascii generated_line"
  by (simp add: generated_line_def is_ascii_def)


lemma ascii_hand_line: "list_all is_ascii hand_line"
  by (simp add: hand_line_def is_ascii_def)

lemma ascii_labelled_line: "list_all is_ascii labelled_line"
  by (simp add: labelled_line_def is_ascii_def)

lemma read_lines_schema_host:
  "list_all is_ascii data \<Longrightarrow> read_lines (schema_host paths) data = (file_lines data, True)"
  by (simp add: read_lines_def schema_host_def ascii_host_def)

lemma glob_schema_host:
  "glob (schema_host paths) present ''schema/**/*.xml'' = paths"
  by (simp add: schema_host_def ascii_host_def schema_glob_def)

lemma takeWhile_before_invalid:
  "list_all is_ascii s \<Longrightarrow> takeWhile is_ascii (s @ CHR 0xFF # r) = s"
  by (induction s) (simp_all add: is_ascii_def)


section \<open>Claims about the pre-processor\<close>

text \<open>
  C7, as the code has it. With \<^verbatim>\<open>remove_controller\<close> false, a file none of whose lines
  (those that reading it yields) matches the pattern of the code has the same bytes after
  \<^verbatim>\<open>pre_generate\<close> as before, whatever happens to the other files of the pass, and
  whether the pass ends normally or with an exception.
\<close>

theorem pre_generate_keeps_ungenerated_file:
  assumes "files f = Some data"
    and "\<forall>line \<in> set (fst (read_lines pf data)). \<not> is_generated line"
  shows "snd (pre_generate pf directory False files) f = Some data"
  unfolding pre_generate_def using assms by (rule pre_generate_files_keep)

theorem pre_generate_keeps_ungenerated_file_witness:
  "[''schema/a.xml'' \<mapsto> generated_line, ''schema/b.xml'' \<mapsto> hand_line] ''schema/b.xml''
     = Some hand_line
   \<and> read_lines (schema_host [''schema/a.xml'', ''schema/b.xml'']) hand_line
     = ([hand_line], True)
   \<and> \<not> is_generated hand_line
   \<and> snd (pre_generate (schema_host [''schema/a.xml'', ''schema/b.xml'']) ''schema'' False
        [''schema/a.xml'' \<mapsto> generated_line, ''schema/b.xml'' \<mapsto> hand_line]) ''schema/b.xml''
     = Some hand_line
   \<and> snd (pre_generate (schema_host [''schema/a.xml'', ''schema/b.xml'']) ''schema'' False
        [''schema/a.xml'' \<mapsto> generated_line, ''schema/b.xml'' \<mapsto> hand_line]) ''schema/a.xml''
     = None"
proof -
  let ?files = "[''schema/a.xml'' \<mapsto> generated_line, ''schema/b.xml'' \<mapsto> hand_line]"
  let ?pf = "schema_host [''schema/a.xml'', ''schema/b.xml'']"
  have lines: "read_lines ?pf hand_line = ([hand_line], True)"
    using file_lines_hand_line [of "[]"]
    by (simp add: read_lines_schema_host ascii_hand_line file_lines_Nil)
  have h1: "?files ''schema/b.xml'' = Some hand_line" by simp
  have h2: "\<forall>line \<in> set (fst (read_lines ?pf hand_line)). \<not> is_generated line"
    by (simp add: lines not_is_generated_hand_line)
  have kept: "snd (pre_generate ?pf ''schema'' False ?files) ''schema/b.xml'' = Some hand_line"
    using h1 h2 by (rule pre_generate_keeps_ungenerated_file)
  have glines: "read_lines ?pf generated_line = ([generated_line], True)"
    using file_lines_generated_line [of "[]"]
    by (simp add: read_lines_schema_host ascii_generated_line file_lines_Nil)
  have gone: "snd (pre_generate ?pf ''schema'' False ?files) ''schema/a.xml'' = None"
    by (simp add: pre_generate_def glob_schema_host startswith_def glines lines os_remove_def
        is_generated_generated_line not_is_generated_hand_line)
  show ?thesis using h1 lines not_is_generated_hand_line kept gone by blast
qed

text \<open>
  C7 as the specification words it fails. In the pattern of the code the name and the end
  \<^verbatim>\<open>)-Generated"\<close> need not be in the same attribute: a changeset line whose author is
  \<^verbatim>\<open>(jane)\<close> and whose labels end in \<^verbatim>\<open>)-Generated\<close> has no author ending in
  \<^verbatim>\<open>-Generated\<close>, and still its file is removed, with \<^verbatim>\<open>remove_controller\<close> false.
\<close>

theorem pre_generate_keeps_ungenerated_file_counterexample:
  "\<not> spec_is_generated labelled_line
   \<and> read_lines (schema_host [''schema/t.xml'']) labelled_line = ([labelled_line], True)
   \<and> pre_generate (schema_host [''schema/t.xml'']) ''schema'' False
        [''schema/t.xml'' \<mapsto> labelled_line]
     = (Inr (), Map.empty)"
proof -
  have lines: "read_lines (schema_host [''schema/t.xml'']) labelled_line = ([labelled_line], True)"
    using file_lines_labelled_line [of "[]"]
    by (simp add: read_lines_schema_host ascii_labelled_line file_lines_Nil)
  have gone: "pre_generate (schema_host [''schema/t.xml'']) ''schema'' False
        [''schema/t.xml'' \<mapsto> labelled_line] = (Inr (), Map.empty)"
    by (simp add: pre_generate_def glob_schema_host lines is_generated_labelled_line
        os_remove_def)
  show ?thesis using not_spec_is_generated_labelled_line lines gone by blast
qed




text \<open>
  C2 against the code. The file \<^verbatim>\<open>schema/t.xml\<close> has two matching lines. The first
  removes the file; the \<^verbatim>\<open>continue\<close> after it is that of the loop over the lines, so the
  scan goes on, and at the second matching line \<^verbatim>\<open>os.remove\<close> raises: the pass ends with
  \<^verbatim>\<open>FileNotFoundError\<close>.
\<close>

theorem pre_generate_second_match_raises:
  "pre_generate (schema_host [''schema/t.xml'']) ''schema'' False
     [''schema/t.xml'' \<mapsto> generated_line @ generated_line]
   = (Inl (FileNotFoundError ''schema/t.xml''), Map.empty)"
proof -
  have g2: "read_lines (schema_host [''schema/t.xml'']) (generated_line @ generated_line)
      = ([generated_line, generated_line], True)"
    using file_lines_generated_line [of generated_line] file_lines_generated_line [of "[]"]
    by (simp add: read_lines_schema_host ascii_generated_line file_lines_Nil)
  show ?thesis
    by (simp add: pre_generate_def glob_schema_host g2 is_generated_generated_line os_remove_def)
qed

section \<open>The rewriting of one file\<close>

lemma strip_non_blank: "strip line \<noteq> [] \<longleftrightarrow> non_blank line"
proof -
  have a: "dropWhile is_space (rev (dropWhile is_space line)) \<noteq> [] \<longleftrightarrow>
      (\<exists>c \<in> set (dropWhile is_space line). \<not> is_space c)"
    by (simp add: dropWhile_eq_Nil_conv)
  have b: "(\<exists>c \<in> set (dropWhile is_space line). \<not> is_space c) \<longleftrightarrow>
      (\<exists>c \<in> set line. \<not> is_space c)"
  proof
    assume "\<exists>c \<in> set (dropWhile is_space line). \<not> is_space c"
    then show "\<exists>c \<in> set line. \<not> is_space c" by (meson set_dropWhileD)
  next
    assume "\<exists>c \<in> set line. \<not> is_space c"
    then have "dropWhile is_space line \<noteq> []" by (simp add: dropWhile_eq_Nil_conv)
    then have "\<not> is_space (hd (dropWhile is_space line))" by (rule hd_dropWhile)
    moreover have "hd (dropWhile is_space line) \<in> set (dropWhile is_space line)"
      using \<open>dropWhile is_space line \<noteq> []\<close> by simp
    ultimately show "\<exists>c \<in> set (dropWhile is_space line). \<not> is_space c" by blast
  qed
  show ?thesis unfolding strip_def non_blank_def list_ex_iff using a b by simp
qed

lemma readline_split:
  "\<exists>u. s = u @ snd (readline s) \<and> length (fst (readline s)) \<le> length u"
proof (induction s)
  case Nil
  then show ?case by simp
next
  case (Cons c cs)
  show ?case
  proof (cases "c = LF")
    case True
    then have "c # cs = [c] @ snd (readline (c # cs))" by simp
    moreover have "length (fst (readline (c # cs))) \<le> length [c]" using True by simp
    ultimately show ?thesis by blast
  next
    case notlf: False
    show ?thesis
    proof (cases "c = CR")
      case True
      show ?thesis
      proof (cases cs)
        case Nil
        then have "c # cs = [c] @ snd (readline (c # cs))" using True by simp
        moreover have "length (fst (readline (c # cs))) \<le> length [c]" using True Nil by simp
        ultimately show ?thesis by blast
      next
        case (Cons d ds)
        show ?thesis
        proof (cases "d = LF")
          case dlf: True
          have "c # cs = [c, d] @ snd (readline (c # cs))" using True Cons dlf by simp
          moreover have "length (fst (readline (c # cs))) \<le> length [c, d]"
            using True Cons dlf by simp
          ultimately show ?thesis by blast
        next
          case dn: False
          have "c # cs = [c] @ snd (readline (c # cs))" using True Cons dn by simp
          moreover have "length (fst (readline (c # cs))) \<le> length [c]"
            using True Cons dn by simp
          ultimately show ?thesis by blast
        qed
      qed
    next
      case False
      obtain u where u: "cs = u @ snd (readline cs)" "length (fst (readline cs)) \<le> length u"
        using Cons.IH by blast
      have "c # cs = (c # u) @ snd (readline (c # cs))"
        using notlf False u(1) by (simp add: split_beta)
      moreover have "length (fst (readline (c # cs))) \<le> length (c # u)"
        using notlf False u(2) by (simp add: split_beta)
      ultimately show ?thesis by blast
    qed
  qed
qed

lemma kept_text_Nil: "kept_text [] = []"
  by (simp add: kept_text_def file_lines.simps)

lemma kept_text_step:
  "s \<noteq> [] \<Longrightarrow> kept_text s =
     (if non_blank (fst (readline s)) then fst (readline s) else []) @ kept_text (snd (readline s))"
  unfolding kept_text_def by (subst file_lines.simps) simp

lemma rewrite_loop_invariant:
  "wpos \<le> length pre \<Longrightarrow>
   rewrite_loop (pre @ rest) (length pre) wpos = Some (take wpos pre @ kept_text rest)"
proof (induction rest arbitrary: pre wpos rule: length_induct)
  case (1 rest)
  show ?case
  proof (cases "rest = []")
    case True
    then show ?thesis
      using "1.prems" by (subst rewrite_loop.simps) (simp add: truncate_at_def kept_text_Nil)
  next
    case False
    obtain line rest' where rl: "readline rest = (line, rest')" by (cases "readline rest") auto
    obtain u where u: "rest = u @ rest'" "length line \<le> length u"
      using readline_split [of rest] rl by auto
    have shorter: "length rest' < length rest"
      using readline_rest_less [OF False] rl by simp
    have pos: "length (pre @ rest) - length rest' = length (pre @ u)" using u(1) by simp
    have unfold: "rewrite_loop (pre @ rest) (length pre) wpos =
        (if strip line \<noteq> []
         then rewrite_loop (write_at (pre @ rest) wpos line) (length (pre @ u)) (wpos + length line)
         else rewrite_loop (pre @ rest) (length (pre @ u)) wpos)"
      using False rl pos by (subst rewrite_loop.simps) simp
    show ?thesis
    proof (cases "non_blank line")
      case blank: False
      have "wpos \<le> length (pre @ u)" using "1.prems" by simp
      then have "rewrite_loop ((pre @ u) @ rest') (length (pre @ u)) wpos =
          Some (take wpos (pre @ u) @ kept_text rest')"
        using "1.IH" [rule_format, of rest' wpos "pre @ u"] shorter by blast
      then show ?thesis
        using unfold blank u(1) "1.prems" kept_text_step [OF False] rl
        by (simp add: strip_non_blank)
    next
      case True
      define pre' where "pre' = take wpos pre @ line @ drop (wpos + length line) (pre @ u)"
      have wr: "write_at (pre @ rest) wpos line = pre' @ rest'"
        using "1.prems" u by (simp add: write_at_def pre'_def)
      have len: "length pre' = length (pre @ u)"
        using "1.prems" u(2) by (simp add: pre'_def)
      have tk: "take (wpos + length line) pre' = take wpos pre @ line"
        using "1.prems" by (simp add: pre'_def)
      have "wpos + length line \<le> length pre'" using "1.prems" u(2) len by simp
      then have "rewrite_loop (pre' @ rest') (length pre') (wpos + length line) =
          Some (take (wpos + length line) pre' @ kept_text rest')"
        using "1.IH" [rule_format, of rest' "wpos + length line" pre'] shorter by blast
      then show ?thesis
        using unfold True wr len tk kept_text_step [OF False] rl
        by (simp add: strip_non_blank)
    qed
  qed
qed

lemma rewrite_loop_kept: "rewrite_loop data 0 0 = Some (kept_text data)"
  using rewrite_loop_invariant [of 0 "[]" data] by simp

section \<open>The lines of the rewritten file\<close>

lemma readline_unterminated: "LF \<notin> set s \<Longrightarrow> CR \<notin> set s \<Longrightarrow> readline s = (s, [])"
  by (induction s) auto

lemma file_lines_unterminated:
  "s \<noteq> [] \<Longrightarrow> LF \<notin> set s \<Longrightarrow> CR \<notin> set s \<Longrightarrow> file_lines s = [s]"
  using readline_unterminated [of s]
  by (subst file_lines.simps) (simp add: file_lines_Nil)

lemma readline_shape:
  "s \<noteq> [] \<Longrightarrow>
   (\<exists>body. fst (readline s) = body @ [LF] \<and> LF \<notin> set body \<and> CR \<notin> set body) \<or>
   (fst (readline s) = s \<and> snd (readline s) = [] \<and> LF \<notin> set s \<and> CR \<notin> set s)"
proof (induction s)
  case Nil
  then show ?case by simp
next
  case (Cons c cs)
  have empty_body: "fst (readline (c # cs)) = [LF] \<Longrightarrow> ?case"
  proof -
    assume "fst (readline (c # cs)) = [LF]"
    then have "fst (readline (c # cs)) = [] @ [LF] \<and> LF \<notin> set [] \<and> CR \<notin> set []" by simp
    then show ?case by blast
  qed
  show ?case
  proof (cases "c = LF")
    case True
    then have "fst (readline (c # cs)) = [LF]" by simp
    then show ?thesis by (rule empty_body)
  next
    case notlf: False
    show ?thesis
    proof (cases "c = CR")
      case True
      then have "fst (readline (c # cs)) = [LF]" by simp
      then show ?thesis by (rule empty_body)
    next
      case False
      have f: "fst (readline (c # cs)) = c # fst (readline cs)"
        using notlf False by (simp add: split_beta)
      have r: "snd (readline (c # cs)) = snd (readline cs)"
        using notlf False by (simp add: split_beta)
      show ?thesis
      proof (cases "cs = []")
        case True
        have "fst (readline (c # cs)) = c # cs" using f True by simp
        moreover have "snd (readline (c # cs)) = []" using r True by simp
        moreover have "LF \<notin> set (c # cs)" "CR \<notin> set (c # cs)"
          using notlf False True by simp_all
        ultimately show ?thesis by blast
      next
        case ne: False
        from Cons.IH [OF ne] show ?thesis
        proof
          assume "\<exists>body. fst (readline cs) = body @ [LF] \<and> LF \<notin> set body \<and> CR \<notin> set body"
          then obtain body where b: "fst (readline cs) = body @ [LF]" "LF \<notin> set body"
            "CR \<notin> set body" by blast
          have "fst (readline (c # cs)) = (c # body) @ [LF]" using f b(1) by simp
          moreover have "LF \<notin> set (c # body)" "CR \<notin> set (c # body)"
            using notlf False b(2,3) by simp_all
          ultimately show ?thesis by blast
        next
          assume a: "fst (readline cs) = cs \<and> snd (readline cs) = [] \<and>
              LF \<notin> set cs \<and> CR \<notin> set cs"
          have "fst (readline (c # cs)) = c # cs" using f a by simp
          moreover have "snd (readline (c # cs)) = []" using r a by simp
          moreover have "LF \<notin> set (c # cs)" "CR \<notin> set (c # cs)"
            using notlf False a by simp_all
          ultimately show ?thesis by blast
        qed
      qed
    qed
  qed
qed

lemma file_lines_kept_text:
  "file_lines (kept_text data) = filter non_blank (file_lines data)"
proof (induction data rule: length_induct)
  case (1 data)
  show ?case
  proof (cases "data = []")
    case True
    then show ?thesis by (simp add: kept_text_Nil file_lines_Nil)
  next
    case False
    define l where "l = fst (readline data)"
    define r where "r = snd (readline data)"
    have "length r < length data" using readline_rest_less [OF False] by (simp add: r_def)
    then have IH: "file_lines (kept_text r) = filter non_blank (file_lines r)"
      using "1.IH" by blast
    have fl: "file_lines data = l # file_lines r"
      using False by (subst file_lines.simps) (simp add: l_def r_def)
    have kt: "kept_text data = (if non_blank l then l else []) @ kept_text r"
      using kept_text_step [OF False] by (simp add: l_def r_def)
    show ?thesis
    proof (cases "non_blank l")
      case False
      then show ?thesis using fl kt IH by simp
    next
      case True
      have "file_lines (l @ kept_text r) = l # file_lines (kept_text r)"
        using readline_shape [OF \<open>data \<noteq> []\<close>]
      proof
        assume "\<exists>body. fst (readline data) = body @ [LF] \<and> LF \<notin> set body \<and> CR \<notin> set body"
        then obtain body where b: "l = body @ [LF]" "LF \<notin> set body" "CR \<notin> set body"
          unfolding l_def by blast
        show ?thesis using file_lines_one_line [OF b(2) b(3), of "kept_text r"] b(1) by simp
      next
        assume a: "fst (readline data) = data \<and> snd (readline data) = [] \<and>
            LF \<notin> set data \<and> CR \<notin> set data"
        then have "l = data" "r = []" by (simp_all add: l_def r_def)
        then show ?thesis
          using a False file_lines_unterminated [of data]
          by (simp add: kept_text_Nil file_lines_Nil)
      qed
      then show ?thesis using True fl kt IH by simp
    qed
  qed
qed

lemma kept_text_idem: "kept_text (kept_text data) = kept_text data"
proof -
  have "kept_text (kept_text data) = concat (filter non_blank (file_lines (kept_text data)))"
    by (simp add: kept_text_def)
  also have "\<dots> = concat (filter non_blank (filter non_blank (file_lines data)))"
    by (simp only: file_lines_kept_text)
  also have "\<dots> = kept_text data" by (simp add: kept_text_def)
  finally show ?thesis .
qed




section \<open>The pass over the files\<close>

text \<open>
  What the rewriting leaves of the bytes of a file of valid text: the lines kept, encoded.
\<close>

definition rewritten :: "platform \<Rightarrow> string \<Rightarrow> string" where
  "rewritten pf data =
     (case decode pf data of Some content \<Rightarrow> encode pf (kept_text content) | None \<Rightarrow> data)"

lemma rewritten_idem:
  assumes "\<And>s. decode pf (encode pf s) = Some s"
  shows "rewritten pf (rewritten pf data) = rewritten pf data"
proof (cases "decode pf data")
  case None
  then show ?thesis by (simp add: rewritten_def)
next
  case (Some content)
  then show ?thesis by (simp add: rewritten_def assms kept_text_idem)
qed

lemma post_generate_files_valid_step:
  "files p = Some data \<Longrightarrow> decode pf data = Some content \<Longrightarrow>
   post_generate_files pf (p # ps) files =
     post_generate_files pf ps (files(p \<mapsto> encode pf (kept_text content)))"
  by (simp add: rewrite_loop_kept)

lemma post_generate_files_closed:
  assumes rt: "\<And>s. decode pf (encode pf s) = Some s"
  shows "\<forall>p \<in> set found. \<forall>d. files p = Some d \<longrightarrow> decode pf d \<noteq> None \<Longrightarrow>
    post_generate_files pf found files =
     Some (if set found \<subseteq> dom files then Inr ()
           else Inl (FileNotFoundError (hd (dropWhile (\<lambda>p. p \<in> dom files) found))),
           (\<lambda>p. if p \<in> set (takeWhile (\<lambda>p. p \<in> dom files) found)
                then map_option (rewritten pf) (files p) else files p))"
proof (induction found arbitrary: files)
  case Nil
  then show ?case by simp
next
  case (Cons p ps)
  show ?case
  proof (cases "files p")
    case None
    then have "p \<notin> dom files" by (simp add: domIff)
    then show ?thesis using None by simp
  next
    case (Some data)
    then have "decode pf data \<noteq> None" using Cons.prems by simp
    then obtain content where content: "decode pf data = Some content" by blast
    define files1 where "files1 = files(p \<mapsto> encode pf (kept_text content))"
    have rw: "rewritten pf data = encode pf (kept_text content)"
      by (simp add: rewritten_def content)
    have d: "dom files1 = dom files" using Some by (auto simp add: files1_def)
    have pin: "p \<in> dom files" using Some by (simp add: domIff)
    have step: "post_generate_files pf (p # ps) files = post_generate_files pf ps files1"
      unfolding files1_def using Some content by (rule post_generate_files_valid_step)
    have valid1: "\<forall>q \<in> set ps. \<forall>d. files1 q = Some d \<longrightarrow> decode pf d \<noteq> None"
    proof (intro ballI allI impI)
      fix q d
      assume q: "q \<in> set ps" and fq: "files1 q = Some d"
      show "decode pf d \<noteq> None"
      proof (cases "q = p")
        case True
        then have "d = encode pf (kept_text content)" using fq by (simp add: files1_def)
        then show ?thesis by (simp add: rt)
      next
        case False
        then have "files q = Some d" using fq by (simp add: files1_def)
        then show ?thesis using Cons.prems q by simp
      qed
    qed
    have maps: "(\<lambda>q. if q \<in> set (takeWhile (\<lambda>p. p \<in> dom files) ps)
                then map_option (rewritten pf) (files1 q) else files1 q) =
        (\<lambda>q. if q \<in> set (p # takeWhile (\<lambda>p. p \<in> dom files) ps)
                then map_option (rewritten pf) (files q) else files q)"
    proof
      fix q
      have again: "rewritten pf (encode pf (kept_text content)) = encode pf (kept_text content)"
        using rewritten_idem [of pf data] rt rw by simp
      show "(if q \<in> set (takeWhile (\<lambda>p. p \<in> dom files) ps)
                then map_option (rewritten pf) (files1 q) else files1 q) =
        (if q \<in> set (p # takeWhile (\<lambda>p. p \<in> dom files) ps)
                then map_option (rewritten pf) (files q) else files q)"
        using Some rw again by (cases "q = p") (simp_all add: files1_def)
    qed
    show ?thesis
      unfolding step Cons.IH [OF valid1] d using pin maps by simp
  qed
qed




section \<open>Claims about the post-processor\<close>



lemma decode_latin1_host: "decode (latin1_host paths) data = Some data"
  by (simp add: latin1_host_def ascii_host_def)

lemma encode_latin1_host: "encode (latin1_host paths) s = s"
  by (simp add: latin1_host_def ascii_host_def)




text \<open>
  C6, as the code has it, on a host whose encoding reads back what it writes. When every
  file that \<^verbatim>\<open>glob\<close> yields is valid text, running \<^verbatim>\<open>post_generate\<close> a second time changes
  nothing: the first run returns (normally, or with the exception of a path that is no
  file), and the second run, on the files the first one left, returns the same way and
  leaves the same files.
\<close>

theorem post_generate_idempotent:
  assumes "\<And>s. decode pf (encode pf s) = Some s"
    and "\<forall>p \<in> set (glob pf (dom files) (directory @ ''/**/*.xml'')).
           \<forall>d. files p = Some d \<longrightarrow> decode pf d \<noteq> None"
  shows "\<exists>r files'. post_generate pf directory files = Some (r, files')
     \<and> post_generate pf directory files' = Some (r, files')"
proof -
  let ?found = "glob pf (dom files) (directory @ ''/**/*.xml'')"
  define r where "r = (if set ?found \<subseteq> dom files then Inr ()
           else Inl (FileNotFoundError (hd (dropWhile (\<lambda>p. p \<in> dom files) ?found))))"
  define files' where "files' = (\<lambda>p. if p \<in> set (takeWhile (\<lambda>p. p \<in> dom files) ?found)
                then map_option (rewritten pf) (files p) else files p)"
  have first: "post_generate_files pf ?found files = Some (r, files')"
    using post_generate_files_closed [of pf ?found files, OF assms(1) assms(2)]
    by (simp add: r_def files'_def)
  have d: "dom files' = dom files"
    by (auto simp add: files'_def domIff split: if_splits)
  have valid: "\<forall>p \<in> set ?found. \<forall>d. files' p = Some d \<longrightarrow> decode pf d \<noteq> None"
  proof (intro ballI allI impI)
    fix p d
    assume p: "p \<in> set ?found" and fp: "files' p = Some d"
    show "decode pf d \<noteq> None"
    proof (cases "p \<in> set (takeWhile (\<lambda>p. p \<in> dom files) ?found)")
      case False
      then have "files p = Some d" using fp by (simp add: files'_def)
      then show ?thesis using assms(2) p by simp
    next
      case True
      then obtain d0 where d0: "files p = Some d0" "d = rewritten pf d0"
        using fp by (auto simp add: files'_def)
      then have "decode pf d0 \<noteq> None" using assms(2) p by simp
      then obtain s where "decode pf d0 = Some s" by blast
      then have "d = encode pf (kept_text s)" using d0(2) by (simp add: rewritten_def)
      then show ?thesis by (simp add: assms(1))
    qed
  qed
  have again: "(\<lambda>p. if p \<in> set (takeWhile (\<lambda>p. p \<in> dom files) ?found)
                then map_option (rewritten pf) (files' p) else files' p) = files'"
  proof
    fix p
    show "(if p \<in> set (takeWhile (\<lambda>p. p \<in> dom files) ?found)
                then map_option (rewritten pf) (files' p) else files' p) = files' p"
      unfolding files'_def using rewritten_idem [of pf, OF assms(1)]
      by (cases "files p") simp_all
  qed
  have second: "post_generate_files pf ?found files' = Some (r, files')"
    using post_generate_files_closed [of pf ?found files', OF assms(1) valid] again
    by (simp add: d r_def)
  show ?thesis
    using first second d by (auto simp add: post_generate_def)
qed

theorem post_generate_idempotent_witness:
  "decode (latin1_host [''schema/t.xml'', ''schema/z.xml''])
       (''<a>'' @ [LF] @ [LF] @ ''  '' @ [LF] @ ''</a>'' @ [LF])
     = Some (''<a>'' @ [LF] @ [LF] @ ''  '' @ [LF] @ ''</a>'' @ [LF])
   \<and> (\<exists>r files'. post_generate (latin1_host [''schema/t.xml'', ''schema/z.xml'']) ''schema''
         [''schema/t.xml'' \<mapsto> ''<a>'' @ [LF] @ [LF] @ ''  '' @ [LF] @ ''</a>'' @ [LF]]
         = Some (r, files')
       \<and> post_generate (latin1_host [''schema/t.xml'', ''schema/z.xml'']) ''schema'' files'
         = Some (r, files'))"
proof -
  let ?data = "''<a>'' @ [LF] @ [LF] @ ''  '' @ [LF] @ ''</a>'' @ [LF]"
  let ?files = "[''schema/t.xml'' \<mapsto> ?data]"
  let ?pf = "latin1_host [''schema/t.xml'', ''schema/z.xml'']"
  have h1: "\<And>s. decode ?pf (encode ?pf s) = Some s"
    by (simp add: decode_latin1_host encode_latin1_host)
  have h2: "\<forall>p \<in> set (glob ?pf (dom ?files) (''schema'' @ ''/**/*.xml'')).
      \<forall>d. ?files p = Some d \<longrightarrow> decode ?pf d \<noteq> None"
    by (simp add: decode_latin1_host)
  have "\<exists>r files'. post_generate ?pf ''schema'' ?files = Some (r, files')
       \<and> post_generate ?pf ''schema'' files' = Some (r, files')"
    using h1 h2 by (rule post_generate_idempotent)
  then show ?thesis using decode_latin1_host by blast
qed

text \<open>
  C6 as the specification words it fails on a file that is not valid text. The example
  host reads a file in pieces of 8192 bytes. The example file has a byte that is not valid
  just after the first piece: each run rewrites the lines of the first piece over the start
  of the file, raises \<^verbatim>\<open>UnicodeDecodeError\<close> and does not cut the file. The first run
  leaves, after the 4094 lines it has written, the last four bytes of the piece, an empty
  line among them; the second run removes that line too, and so changes the file again.
\<close>

lemma x_lines_Suc: "x_lines (Suc n) = CHR ''x'' # LF # x_lines n"
  by (simp add: x_lines_def)

lemma x_lines_snoc: "x_lines (Suc n) = x_lines n @ [CHR ''x'', LF]"
  by (induction n) (simp_all add: x_lines_def)

lemma length_x_lines: "length (x_lines n) = 2 * n"
  by (induction n) (simp_all add: x_lines_def)

lemma ascii_x_lines: "list_all is_ascii (x_lines n)"
  by (induction n) (simp_all add: x_lines_def is_ascii_def)

lemma kept_text_line:
  "LF \<notin> set s \<Longrightarrow> CR \<notin> set s \<Longrightarrow>
   kept_text (s @ LF # r) = (if non_blank (s @ [LF]) then s @ [LF] else []) @ kept_text r"
  unfolding kept_text_def by (simp add: file_lines_one_line)

lemma kept_text_blank: "kept_text (LF # r) = kept_text r"
  using kept_text_line [of "[]" r] by (simp add: non_blank_def is_space_def)

lemma kept_text_x: "kept_text (CHR ''x'' # LF # r) = CHR ''x'' # LF # kept_text r"
  using kept_text_line [of "''x''" r] by (simp add: non_blank_def is_space_def)

lemma kept_text_x_lines: "kept_text (x_lines n @ r) = x_lines n @ kept_text r"
proof (induction n)
  case 0
  then show ?case by (simp add: x_lines_def)
next
  case (Suc n)
  then show ?case by (simp add: x_lines_Suc kept_text_x)
qed

lemma post_generate_invalid_chunk:
  assumes "length good = 8192" and "list_all is_ascii good" and "last good = LF"
  shows "post_generate (schema_host [p]) ''schema'' [p \<mapsto> good @ [CHR 0xFF]] =
     Some (Inl UnicodeDecodeError,
           [p \<mapsto> kept_text good @ drop (length (kept_text good)) (good @ [CHR 0xFF])])"
proof -
  have ne: "good \<noteq> []" using assms(1) by auto
  have nodec: "decode (schema_host [p]) (good @ [CHR 0xFF]) = None"
    by (simp add: schema_host_def ascii_host_def is_ascii_def)
  have "takeWhile is_ascii (good @ [CHR 0xFF]) = good"
    using assms(2) by (rule takeWhile_before_invalid)
  then have "ascii_lines_before_error (good @ [CHR 0xFF]) = file_lines good"
    using assms(1,3) ne by (simp add: ascii_lines_before_error_def complete_lines_def)
  then have lines: "lines_before_error (schema_host [p]) (good @ [CHR 0xFF]) = file_lines good"
    by (simp add: schema_host_def ascii_host_def)
  have keep: "filter (\<lambda>line. strip line \<noteq> []) (file_lines good) =
      filter non_blank (file_lines good)"
    by (simp add: strip_non_blank)
  have enc: "encode (schema_host [p]) (kept_text good) = kept_text good"
    by (simp add: schema_host_def ascii_host_def)
  show ?thesis
    using nodec lines enc
    by (simp add: post_generate_def glob_schema_host keep kept_text_def [symmetric] write_at_def)
qed

theorem post_generate_idempotent_counterexample:
  "post_generate (schema_host [''schema/t.xml'']) ''schema'' [''schema/t.xml'' \<mapsto> chunk_file]
     = Some (Inl UnicodeDecodeError, [''schema/t.xml'' \<mapsto> chunk_file_once])
   \<and> post_generate (schema_host [''schema/t.xml'']) ''schema''
       [''schema/t.xml'' \<mapsto> chunk_file_once]
     = Some (Inl UnicodeDecodeError, [''schema/t.xml'' \<mapsto> chunk_file_twice])
   \<and> chunk_file_once \<noteq> chunk_file_twice"
proof -
  define good0 where "good0 = [LF, LF, LF] @ x_lines 4093 @ [LF] @ ''x'' @ [LF]"
  define good1 where "good1 = x_lines 4094 @ [LF, LF] @ ''x'' @ [LF]"
  have s93: "x_lines 4093 = x_lines 4092 @ [CHR ''x'', LF]"
    using x_lines_snoc [of 4092] by simp
  have s94: "x_lines 4094 = x_lines 4093 @ [CHR ''x'', LF]"
    using x_lines_snoc [of 4093] by simp
  have s95: "x_lines 4095 = x_lines 4094 @ [CHR ''x'', LF]"
    using x_lines_snoc [of 4094] by simp
  have s96: "x_lines 4096 = x_lines 4095 @ [CHR ''x'', LF]"
    using x_lines_snoc [of 4095] by simp
  have c0: "chunk_file = good0 @ [CHR 0xFF]" by (simp add: chunk_file_def good0_def)
  have c1: "chunk_file_once = good1 @ [CHR 0xFF]" by (simp add: chunk_file_once_def good1_def)
  have k0: "kept_text good0 = x_lines 4094"
    by (simp add: good0_def kept_text_blank kept_text_x_lines kept_text_x kept_text_Nil s94)
  have k1: "kept_text good1 = x_lines 4095"
    by (simp add: good1_def kept_text_blank kept_text_x_lines kept_text_x kept_text_Nil s95)
  have split0: "good0 @ [CHR 0xFF] =
      ([LF, LF, LF] @ x_lines 4092 @ ''x'') @ ([LF, LF] @ ''x'' @ [LF] @ [CHR 0xFF])"
    by (simp add: good0_def s93)
  have d0: "drop (length (x_lines 4094)) (good0 @ [CHR 0xFF]) = [LF, LF] @ ''x'' @ [LF] @ [CHR 0xFF]"
    unfolding split0 by (simp add: length_x_lines)
  have split1: "good1 @ [CHR 0xFF] = (x_lines 4094 @ [LF, LF]) @ (''x'' @ [LF] @ [CHR 0xFF])"
    by (simp add: good1_def)
  have d1: "drop (length (x_lines 4095)) (good1 @ [CHR 0xFF]) = ''x'' @ [LF] @ [CHR 0xFF]"
    unfolding split1 by (simp add: length_x_lines)
  have run0: "post_generate (schema_host [''schema/t.xml'']) ''schema''
      [''schema/t.xml'' \<mapsto> good0 @ [CHR 0xFF]] =
     Some (Inl UnicodeDecodeError,
           [''schema/t.xml'' \<mapsto> kept_text good0 @ drop (length (kept_text good0)) (good0 @ [CHR 0xFF])])"
    by (rule post_generate_invalid_chunk)
      (simp_all add: good0_def length_x_lines ascii_x_lines is_ascii_def)
  have run1: "post_generate (schema_host [''schema/t.xml'']) ''schema''
      [''schema/t.xml'' \<mapsto> good1 @ [CHR 0xFF]] =
     Some (Inl UnicodeDecodeError,
           [''schema/t.xml'' \<mapsto> kept_text good1 @ drop (length (kept_text good1)) (good1 @ [CHR 0xFF])])"
    by (rule post_generate_invalid_chunk)
      (simp_all add: good1_def length_x_lines ascii_x_lines is_ascii_def)
  have once: "kept_text good0 @ drop (length (kept_text good0)) chunk_file = chunk_file_once"
    unfolding c0 k0 d0 by (simp add: chunk_file_once_def)
  have twice: "kept_text good1 @ drop (length (kept_text good1)) chunk_file_once
      = chunk_file_twice"
    unfolding c1 k1 d1 by (simp add: chunk_file_twice_def s96)
  have r0: "post_generate (schema_host [''schema/t.xml'']) ''schema''
      [''schema/t.xml'' \<mapsto> chunk_file]
     = Some (Inl UnicodeDecodeError, [''schema/t.xml'' \<mapsto> chunk_file_once])"
    using run0 unfolding c0 [symmetric] once .
  have r1: "post_generate (schema_host [''schema/t.xml'']) ''schema''
      [''schema/t.xml'' \<mapsto> chunk_file_once]
     = Some (Inl UnicodeDecodeError, [''schema/t.xml'' \<mapsto> chunk_file_twice])"
    using run1 unfolding c1 [symmetric] twice .
  have differ: "chunk_file_once \<noteq> chunk_file_twice"
    by (simp add: chunk_file_once_def chunk_file_twice_def s96 s95)
  show ?thesis using r0 r1 differ by blast
qed

section \<open>The verdict on a run of the tool\<close>

lemma startswith_iff: "startswith s p \<longleftrightarrow> (\<exists>v. s = p @ v)"
proof
  assume "startswith s p"
  then have "s = p @ drop (length p) s"
    unfolding startswith_def by (metis append_take_drop_id)
  then show "\<exists>v. s = p @ v" by blast
next
  assume "\<exists>v. s = p @ v"
  then show "startswith s p" unfolding startswith_def by auto
qed

lemma str_in_iff: "str_in x s \<longleftrightarrow> (\<exists>u v. s = u @ x @ v)"
proof (induction s)
  case Nil
  then show ?case by simp
next
  case (Cons c cs)
  show ?case
  proof
    assume "str_in x (c # cs)"
    then have "startswith (c # cs) x \<or> str_in x cs" by simp
    then show "\<exists>u v. c # cs = u @ x @ v"
    proof
      assume "startswith (c # cs) x"
      then obtain v where "c # cs = [] @ x @ v" using startswith_iff by auto
      then show ?thesis by blast
    next
      assume "str_in x cs"
      then obtain u v where "cs = u @ x @ v" using Cons.IH by blast
      then have "c # cs = (c # u) @ x @ v" by simp
      then show ?thesis by blast
    qed
  next
    assume "\<exists>u v. c # cs = u @ x @ v"
    then obtain u v where uv: "c # cs = u @ x @ v" by blast
    show "str_in x (c # cs)"
    proof (cases u)
      case Nil
      then have "startswith (c # cs) x" using uv startswith_iff by auto
      then show ?thesis by simp
    next
      case (Cons d u')
      then have "cs = u' @ x @ v" using uv by simp
      then have "str_in x cs" using Cons.IH by blast
      then show ?thesis by simp
    qed
  qed
qed

lemma str_in_trans: "str_in a b \<Longrightarrow> str_in b c \<Longrightarrow> str_in a c"
proof -
  assume "str_in a b" "str_in b c"
  then obtain u v u' v' where "b = u @ a @ v" "c = u' @ b @ v'"
    unfolding str_in_iff by blast
  then have "c = (u' @ u) @ a @ (v @ v')" by simp
  then show ?thesis unfolding str_in_iff by blast
qed

lemma str_in_set: "str_in x s \<Longrightarrow> set x \<subseteq> set s"
  unfolding str_in_iff by auto

lemma splitline_fst: "fst (splitline s) = takeWhile (\<lambda>c. \<not> is_linebreak c) s"
  by (induction s) (simp_all add: split_beta)

lemma startswith_takeWhile:
  "startswith s x \<Longrightarrow> \<forall>c \<in> set x. P c \<Longrightarrow> startswith (takeWhile P s) x"
proof -
  assume "startswith s x" and p: "\<forall>c \<in> set x. P c"
  then obtain v where "s = x @ v" using startswith_iff by blast
  then have "takeWhile P s = x @ takeWhile P v" using p by (simp add: takeWhile_append2)
  then show ?thesis using startswith_iff by blast
qed

lemma splitlines_Nil: "splitlines [] = []"
  by (simp add: splitlines.simps)

lemma splitlines_Cons:
  "splitlines (c # cs) = fst (splitline (c # cs)) # splitlines (snd (splitline (c # cs)))"
  by (subst splitlines.simps) simp

lemma str_in_splitlines:
  assumes "x \<noteq> []" and "\<forall>c \<in> set x. \<not> is_linebreak c"
  shows "str_in x s \<Longrightarrow> \<exists>line \<in> set (splitlines s). str_in x line"
proof (induction s rule: length_induct)
  case (1 s)
  note IH = "1.IH" [rule_format]
  show ?case
  proof (cases s)
    case Nil
    then show ?thesis using "1.prems" assms(1) by simp
  next
    case (Cons c cs)
    have no_start: "is_linebreak d \<Longrightarrow> \<not> startswith (d # t) x" for d t
    proof
      assume d: "is_linebreak d" and "startswith (d # t) x"
      then obtain v where "d # t = x @ v" using startswith_iff by blast
      then have "hd x = d" using assms(1) by (cases x) auto
      then have "d \<in> set x" using assms(1) by (cases x) auto
      then show False using d assms(2) by blast
    qed
    show ?thesis
    proof (cases "is_linebreak c")
      case True
      have in_cs: "str_in x cs" using "1.prems" Cons no_start [OF True] by simp
      define r where "r = snd (splitline (c # cs))"
      have r_cases: "r = cs \<or> (\<exists>ds. cs = LF # ds \<and> r = ds)"
        using True by (cases cs) (auto simp add: r_def)
      have "str_in x r"
      proof -
        from r_cases show ?thesis
        proof
          assume "r = cs"
          then show ?thesis using in_cs by simp
        next
          assume "\<exists>ds. cs = LF # ds \<and> r = ds"
          then obtain ds where ds: "cs = LF # ds" "r = ds" by blast
          have "is_linebreak LF" by (simp add: is_linebreak_def)
          then have "\<not> startswith (LF # ds) x" by (rule no_start)
          then show ?thesis using in_cs ds by simp
        qed
      qed
      moreover have "length r < length s"
        using splitline_rest_less [of "c # cs"] Cons by (simp add: r_def)
      ultimately obtain line where "line \<in> set (splitlines r)" "str_in x line"
        using IH [of r] by blast
      then show ?thesis unfolding Cons splitlines_Cons r_def [symmetric] by auto
    next
      case False
      have f: "fst (splitline (c # cs)) = c # fst (splitline cs)"
        and r: "snd (splitline (c # cs)) = snd (splitline cs)"
        using False by (simp_all add: split_beta)
      have all: "splitlines s = (c # fst (splitline cs)) # splitlines (snd (splitline cs))"
        unfolding Cons splitlines_Cons f r by simp
      from "1.prems" have "startswith (c # cs) x \<or> str_in x cs" unfolding Cons by simp
      then show ?thesis
      proof
        assume "startswith (c # cs) x"
        then have "startswith (takeWhile (\<lambda>c. \<not> is_linebreak c) (c # cs)) x"
          using assms(2) by (rule startswith_takeWhile)
        then have "startswith (c # fst (splitline cs)) x"
          using False by (simp add: splitline_fst)
        then have "str_in x (c # fst (splitline cs))" by simp
        then show ?thesis unfolding all by simp
      next
        assume in_cs: "str_in x cs"
        then have ne: "cs \<noteq> []" using assms(1) by auto
        have "length cs < length s" using Cons by simp
        then obtain line where line: "line \<in> set (splitlines cs)" "str_in x line"
          using IH [of cs] in_cs by blast
        have "splitlines cs = fst (splitline cs) # splitlines (snd (splitline cs))"
          using ne by (subst splitlines.simps) simp
        then have "line = fst (splitline cs) \<or> line \<in> set (splitlines (snd (splitline cs)))"
          using line(1) by simp
        then show ?thesis
        proof
          assume "line = fst (splitline cs)"
          then have "str_in x (c # fst (splitline cs))" using line(2) by simp
          then show ?thesis unfolding all by simp
        next
          assume "line \<in> set (splitlines (snd (splitline cs)))"
          then show ?thesis unfolding all using line(2) by auto
        qed
      qed
    qed
  qed
qed

lemma scan_output_eq:
  "scan_output ls st =
     (if \<exists>l \<in> set ls. list_ex (\<lambda>x. str_in x l) error_matches then 1 else st)"
  by (induction ls arbitrary: st) simp_all

lemma marker_non_blank:
  assumes "m \<in> set error_matches" and "str_in m line"
  shows "non_blank line"
proof -
  have "m = ''Error Message'' \<or> m = ''ORA-'' \<or> m = ''SQL Error'' \<or> m = ''Validation Failed''
      \<or> m = ''Unexpected internal error''"
    using assms(1) by (simp add: error_matches_def)
  then have "m \<noteq> [] \<and> \<not> is_space (hd m)"
    by (elim disjE) (simp_all add: is_space_def)
  then have "\<exists>c \<in> set m. \<not> is_space c" using hd_in_set by blast
  moreover have "set m \<subseteq> set line" using assms(2) by (rule str_in_set)
  ultimately show ?thesis unfolding non_blank_def list_ex_iff by blast
qed

lemma transcript_verdict:
  "scan_output (filter (\<lambda>line. line \<noteq> []) (splitlines out)) 0 \<noteq> 0 \<longleftrightarrow>
     (\<exists>line \<in> set (splitlines out). non_blank line \<and> (\<exists>m \<in> set error_matches. str_in m line))"
proof -
  have "(\<exists>l \<in> set (filter (\<lambda>line. line \<noteq> []) (splitlines out)).
            list_ex (\<lambda>x. str_in x l) error_matches) \<longleftrightarrow>
        (\<exists>line \<in> set (splitlines out). non_blank line \<and> (\<exists>m \<in> set error_matches. str_in m line))"
  proof
    assume "\<exists>l \<in> set (filter (\<lambda>line. line \<noteq> []) (splitlines out)).
        list_ex (\<lambda>x. str_in x l) error_matches"
    then obtain l m where "l \<in> set (splitlines out)" "m \<in> set error_matches" "str_in m l"
      unfolding list_ex_iff by auto
    then show "\<exists>line \<in> set (splitlines out). non_blank line \<and>
        (\<exists>m \<in> set error_matches. str_in m line)"
      using marker_non_blank by blast
  next
    assume "\<exists>line \<in> set (splitlines out). non_blank line \<and>
        (\<exists>m \<in> set error_matches. str_in m line)"
    then obtain l m where lm: "l \<in> set (splitlines out)" "non_blank l"
      "m \<in> set error_matches" "str_in m l" by blast
    have "l \<noteq> []" using lm(2) by (auto simp add: non_blank_def)
    then show "\<exists>l \<in> set (filter (\<lambda>line. line \<noteq> []) (splitlines out)).
        list_ex (\<lambda>x. str_in x l) error_matches"
      using lm unfolding list_ex_iff by auto
  qed
  then show ?thesis by (simp add: scan_output_eq)
qed

lemma ora_in_transcript:
  assumes "str_in ''ORA-00001'' out"
  shows "\<exists>line \<in> set (splitlines out). non_blank line \<and> (\<exists>m \<in> set error_matches. str_in m line)"
proof -
  have "\<exists>line \<in> set (splitlines out). str_in ''ORA-00001'' line"
    using assms by (intro str_in_splitlines) (simp_all add: is_linebreak_def)
  then obtain line where line: "line \<in> set (splitlines out)" "str_in ''ORA-00001'' line"
    by blast
  have "str_in ''ORA-'' ''ORA-00001''" by (simp add: startswith_def)
  then have hit: "str_in ''ORA-'' line" using line(2) by (rule str_in_trans)
  have m: "''ORA-'' \<in> set error_matches" by (simp add: error_matches_def)
  then have "non_blank line" using hit by (rule marker_non_blank)
  then show ?thesis using line(1) hit m by blast
qed


lemma replace_absent: "old \<noteq> [] \<Longrightarrow> hd old \<notin> set s \<Longrightarrow> replace old new s = s"
proof (induction s)
  case Nil
  then show ?case by (subst replace.simps) simp
next
  case (Cons c cs)
  have "\<not> startswith (c # cs) old"
    using Cons.prems by (cases old) (auto simp add: startswith_def)
  then show ?case using Cons by (subst replace.simps) simp
qed

lemma translate_newlines_id: "CR \<notin> set s \<Longrightarrow> translate_newlines s = s"
  by (simp add: translate_newlines_def replace_absent)

lemma and_then_raises: "m w = Some (Inl e, w') \<Longrightarrow> and_then m k w = Some (Inl e, w')"
  by (simp add: and_then_def)

section \<open>An exception ends the program\<close>

text \<open>
  Nothing in the actions or in the main program catches what \<^verbatim>\<open>run_sqlcl\<close> raises: the
  action ends with it, and so does the program, with that exit status.
\<close>

lemma destroy_raises:
  "run_sqlcl pf ''ADMIN'' password (dbName a) ''admin''
     ''lb rollback-count -changelog controller.xml -count 999;'' tns_admin w = Some (Inl e, w')
   \<Longrightarrow> destroy pf password tns_admin a w = Some (Inl e, w')"
  by (simp add: destroy_def)

lemma deploy_call_raises:
  "disk w (os_path_join path ''controller.xml'') \<noteq> None \<Longrightarrow>
   run_sqlcl pf user password (dbName a) path ''lb update -changelog-file controller.xml;''
     tns_admin (emit (PathExists (os_path_join path ''controller.xml'')) w) = Some (Inl e, w')
   \<Longrightarrow> deploy_call pf path user password tns_admin a w = Some (Inl e, w')"
  by (simp add: deploy_call_def emit_def)

lemma deploy_raises:
  "deploy_call pf ''admin'' ''ADMIN'' password tns_admin a w = Some (Inl e, w')
   \<Longrightarrow> deploy pf password tns_admin a w = Some (Inl e, w')"
  by (simp add: deploy_def and_then_def)

lemma generate_raises:
  "call_pre_generate pf ''schema'' True w = Some (Inr (), w1) \<Longrightarrow>
   run_sqlcl pf (''ADMIN['' @ dbUser a @ '']'') password (dbName a) ''schema''
     ''lb generate-schema -split -grants -runonchange -fail-on-error'' tns_admin w1
     = Some (Inl e, w')
   \<Longrightarrow> generate pf password tns_admin a w = Some (Inl e, w')"
  by (simp add: generate_def and_then_def)

lemma main_raises:
  "\<not> debug a \<Longrightarrow> resolve_password pf a w = Some (Inr password, w1) \<Longrightarrow>
   resolve_tns pf a w1 = Some (Inr tns_admin, w2) \<Longrightarrow>
   (case func a of
      Deploy \<Rightarrow> deploy pf password tns_admin a
    | Generate \<Rightarrow> generate pf password tns_admin a
    | Destroy \<Rightarrow> destroy pf password tns_admin a) w2 = Some (Inl e, w')
   \<Longrightarrow> main pf a w = Some (Inl e, w')"
  by (simp add: main_def and_then_def)

section \<open>Claim about the verdict of run_sqlcl\<close>

text \<open>
  C4, as the code has it. Let \<^verbatim>\<open>subprocess.run\<close> return: the tool starts, and the bytes of
  its two output streams are valid text. The transcript is the decoded standard output with
  its line endings translated. Then the call of \<^verbatim>\<open>run_sqlcl\<close> returns normally exactly when
  the exit code of the tool is zero and no line of the transcript that has a character other
  than whitespace holds one of the five markers; otherwise it raises \<^verbatim>\<open>SystemExit(1)\<close>, and
  whatever follows the call is not run. A transcript in which \<^verbatim>\<open>ORA-00001\<close> occurs anywhere
  makes the call raise, whatever the exit code.
\<close>

theorem run_sqlcl_verdict:
  assumes "fst (sql pf (sqlcl_call pf run_as password service path cmd tns_admin) (disk w))
      = Inr result"
    and "decode pf (stdout result) = Some out"
    and "decode pf (stderr result) = Some err"
  shows "(let transcript = translate_newlines out;
        clean = (returncode result = 0 \<and>
                 \<not> (\<exists>line \<in> set (splitlines transcript).
                       non_blank line \<and> (\<exists>m \<in> set error_matches. str_in m line)))
    in ((\<exists>w'. run_sqlcl pf run_as password service path cmd tns_admin w = Some (Inr (), w'))
          \<longleftrightarrow> clean)
     \<and> (\<not> clean \<longrightarrow>
          (\<exists>w'. run_sqlcl pf run_as password service path cmd tns_admin w
                  = Some (Inl (SystemExit 1), w')
              \<and> (\<forall>k. and_then (run_sqlcl pf run_as password service path cmd tns_admin) k w
                  = Some (Inl (SystemExit 1), w'))))
     \<and> (str_in ''ORA-00001'' transcript \<longrightarrow>
          (\<exists>w'. run_sqlcl pf run_as password service path cmd tns_admin w
                  = Some (Inl (SystemExit 1), w'))))"
proof -
  define hit where
    "hit \<longleftrightarrow> (\<exists>line \<in> set (splitlines (translate_newlines out)).
                non_blank line \<and> (\<exists>m \<in> set error_matches. str_in m line))"
  define w1 where
    "w1 = emit (Subprocess (sqlcl_call pf run_as password service path cmd tns_admin))
       (w\<lparr>disk := snd (sql pf (sqlcl_call pf run_as password service path cmd tns_admin)
          (disk w))\<rparr>)"
  have scan: "scan_output (filter (\<lambda>line. line \<noteq> []) (splitlines (translate_newlines out))) 0 \<noteq> 0
      \<longleftrightarrow> hit"
    unfolding hit_def by (rule transcript_verdict)
  have run: "run_sqlcl pf run_as password service path cmd tns_admin w =
      (if returncode result \<noteq> 0 \<or> hit then Some (Inl (SystemExit 1), w1) else Some (Inr (), w1))"
    using scan assms by (simp add: run_sqlcl_def Let_def w1_def [symmetric])
  have ora: "str_in ''ORA-00001'' (translate_newlines out) \<longrightarrow> hit"
    unfolding hit_def using ora_in_transcript by blast
  have raise: "\<not> (returncode result = 0 \<and> \<not> hit) \<longrightarrow>
      (\<forall>k. and_then (run_sqlcl pf run_as password service path cmd tns_admin) k w
                  = Some (Inl (SystemExit 1), w1))"
    by (auto simp add: run and_then_def)
  have "((\<exists>w'. run_sqlcl pf run_as password service path cmd tns_admin w = Some (Inr (), w'))
          \<longleftrightarrow> (returncode result = 0 \<and> \<not> hit))
     \<and> (\<not> (returncode result = 0 \<and> \<not> hit) \<longrightarrow>
          (\<exists>w'. run_sqlcl pf run_as password service path cmd tns_admin w
                  = Some (Inl (SystemExit 1), w')
              \<and> (\<forall>k. and_then (run_sqlcl pf run_as password service path cmd tns_admin) k w
                  = Some (Inl (SystemExit 1), w'))))
     \<and> (str_in ''ORA-00001'' (translate_newlines out) \<longrightarrow>
          (\<exists>w'. run_sqlcl pf run_as password service path cmd tns_admin w
                  = Some (Inl (SystemExit 1), w')))"
    using ora raise by (auto simp add: run)
  then show ?thesis
    unfolding Let_def hit_def by blast
qed

text \<open>An example: the tool exits with code 0 and reports a violated constraint.\<close>

definition failed_run :: completed where
  "failed_run = \<lparr>returncode = 0,
     stdout = ''Running Changeset'' @ [LF] @ ''ORA-00001: unique constraint violated'' @ [LF],
     stderr = []\<rparr>"

theorem run_sqlcl_verdict_witness:
  "returncode failed_run = 0
   \<and> decode (tool_host failed_run) (stdout failed_run) = Some (stdout failed_run)
   \<and> str_in ''ORA-00001'' (translate_newlines (stdout failed_run))
   \<and> (\<exists>w'. run_sqlcl (tool_host failed_run) ''ADMIN'' ''secret'' ''db'' ''admin''
             ''lb update -changelog-file controller.xml;'' ''/wallet''
             \<lparr>disk = Map.empty, trace = []\<rparr>
           = Some (Inl (SystemExit 1), w'))"
proof -
  let ?w = "\<lparr>disk = Map.empty, trace = []\<rparr>"
  have res: "fst (sql (tool_host failed_run)
      (sqlcl_call (tool_host failed_run) ''ADMIN'' ''secret'' ''db'' ''admin''
         ''lb update -changelog-file controller.xml;'' ''/wallet'') (disk ?w)) = Inr failed_run"
    by (simp add: tool_host_def ascii_host_def)
  have rc: "returncode failed_run = 0" by (simp add: failed_run_def)
  have out: "decode (tool_host failed_run) (stdout failed_run) = Some (stdout failed_run)"
    by (simp add: tool_host_def ascii_host_def failed_run_def is_ascii_def)
  have err: "decode (tool_host failed_run) (stderr failed_run) = Some []"
    by (simp add: tool_host_def ascii_host_def failed_run_def)
  have same: "translate_newlines (stdout failed_run) = stdout failed_run"
    by (rule translate_newlines_id) (simp add: failed_run_def)
  have ora: "str_in ''ORA-00001'' (translate_newlines (stdout failed_run))"
    unfolding same by (simp add: failed_run_def startswith_def)
  have "\<exists>w'. run_sqlcl (tool_host failed_run) ''ADMIN'' ''secret'' ''db'' ''admin''
             ''lb update -changelog-file controller.xml;'' ''/wallet'' ?w
           = Some (Inl (SystemExit 1), w')"
    using run_sqlcl_verdict [OF res out err] ora
    unfolding Let_def by blast
  then show ?thesis using rc out ora by blast
qed

text \<open>
  C4 as the specification words it fails when the output of the tool is not valid text:
  the tool exits with code 0, no marker is in its output, and the call does not return
  normally, since \<^verbatim>\<open>subprocess.run\<close> raises \<^verbatim>\<open>UnicodeDecodeError\<close>.
\<close>

definition invalid_run :: completed where
  "invalid_run = \<lparr>returncode = 0,
     stdout = ''Running Changeset'' @ [CHR 0xFF] @ [LF],
     stderr = []\<rparr>"

theorem run_sqlcl_verdict_counterexample:
  "returncode invalid_run = 0
   \<and> \<not> list_ex (\<lambda>m. str_in m (stdout invalid_run)) error_matches
   \<and> (\<exists>w'. run_sqlcl (tool_host invalid_run) ''ADMIN'' ''secret'' ''db'' ''admin''
             ''lb update -changelog-file controller.xml;'' ''/wallet''
             \<lparr>disk = Map.empty, trace = []\<rparr>
           = Some (Inl UnicodeDecodeError, w'))"
proof -
  have rc: "returncode invalid_run = 0" by (simp add: invalid_run_def)
  have none: "\<not> list_ex (\<lambda>m. str_in m (stdout invalid_run)) error_matches"
    by (simp add: invalid_run_def error_matches_def startswith_def)
  have nodec: "decode (tool_host invalid_run) (stdout invalid_run) = None"
    by (simp add: tool_host_def ascii_host_def invalid_run_def is_ascii_def)
  have res: "fst (sql (tool_host invalid_run)
      (sqlcl_call (tool_host invalid_run) ''ADMIN'' ''secret'' ''db'' ''admin''
         ''lb update -changelog-file controller.xml;'' ''/wallet'') Map.empty) = Inr invalid_run"
    by (simp add: tool_host_def ascii_host_def)
  have "\<exists>w'. run_sqlcl (tool_host invalid_run) ''ADMIN'' ''secret'' ''db'' ''admin''
             ''lb update -changelog-file controller.xml;'' ''/wallet''
             \<lparr>disk = Map.empty, trace = []\<rparr>
           = Some (Inl UnicodeDecodeError, w')"
    using res nodec by (simp add: run_sqlcl_def Let_def)
  then show ?thesis using rc none by blast
qed

section \<open>What a run adds to the trace\<close>

text \<open>
  A step is silent for a kind of event when no run of it adds an event of that kind to the
  trace.
\<close>

definition silent :: "(event \<Rightarrow> bool) \<Rightarrow> 'a step \<Rightarrow> bool" where
  "silent P m \<longleftrightarrow> (\<forall>w r w'. m w = Some (r, w') \<longrightarrow> filter P (trace w') = filter P (trace w))"

fun is_subprocess :: "event \<Rightarrow> bool" where
  "is_subprocess (Subprocess call) = True"
| "is_subprocess _ = False"

fun opens_secret :: "event \<Rightarrow> bool" where
  "opens_secret (OpenFile path mode) = (path = ''.secret'')"
| "opens_secret _ = False"

lemma silent_and_then:
  assumes "silent P m" and "\<And>x. silent P (k x)"
  shows "silent P (and_then m k)"
  unfolding silent_def
proof (intro allI impI)
  fix w r w'
  assume run: "and_then m k w = Some (r, w')"
  show "filter P (trace w') = filter P (trace w)"
  proof (cases "m w")
    case None
    then show ?thesis using run by (simp add: and_then_def)
  next
    case (Some res)
    obtain r1 w1 where res: "res = (r1, w1)" by (cases res) auto
    have first: "filter P (trace w1) = filter P (trace w)"
      using assms(1) Some res unfolding silent_def by blast
    show ?thesis
    proof (cases r1)
      case (Inl e)
      then have "w' = w1" using run Some res by (simp add: and_then_def)
      then show ?thesis using first by simp
    next
      case (Inr x)
      then have "k x w1 = Some (r, w')" using run Some res by (simp add: and_then_def)
      then have "filter P (trace w') = filter P (trace w1)"
        using assms(2) [of x] unfolding silent_def by blast
      then show ?thesis using first by simp
    qed
  qed
qed

lemma silent_run_sqlcl:
  assumes "\<And>call. \<not> P (Subprocess call)"
  shows "silent P (run_sqlcl pf run_as password service path cmd tns_admin)"
  unfolding silent_def run_sqlcl_def Let_def
  by (auto simp add: emit_def assms split: sum.splits option.splits if_splits)

lemma silent_deploy_call:
  assumes "\<And>call. \<not> P (Subprocess call)" and "\<And>path. \<not> P (PathExists path)"
  shows "silent P (deploy_call pf path user password tns_admin a)"
proof -
  have inner: "silent P (run_sqlcl pf user password (dbName a) path
      ''lb update -changelog-file controller.xml;'' tns_admin)"
    using assms(1) by (rule silent_run_sqlcl)
  show ?thesis
    unfolding silent_def deploy_call_def Let_def
  proof (intro allI impI)
    fix w r w'
    let ?w1 = "emit (PathExists (os_path_join path ''controller.xml'')) w"
    assume run: "(if disk ?w1 (os_path_join path ''controller.xml'') \<noteq> None
        then run_sqlcl pf user password (dbName a) path
               ''lb update -changelog-file controller.xml;'' tns_admin ?w1
        else Some (Inr (), ?w1)) = Some (r, w')"
    have w1: "filter P (trace ?w1) = filter P (trace w)" by (simp add: emit_def assms(2))
    show "filter P (trace w') = filter P (trace w)"
    proof (cases "disk ?w1 (os_path_join path ''controller.xml'') \<noteq> None")
      case True
      then have "run_sqlcl pf user password (dbName a) path
          ''lb update -changelog-file controller.xml;'' tns_admin ?w1 = Some (r, w')"
        using run by simp
      then have "filter P (trace w') = filter P (trace ?w1)"
        using inner unfolding silent_def by blast
      then show ?thesis using w1 by simp
    next
      case False
      then have "w' = ?w1" using run by simp
      then show ?thesis using w1 by simp
    qed
  qed
qed

lemma silent_deploy:
  assumes "\<And>call. \<not> P (Subprocess call)" and "\<And>path. \<not> P (PathExists path)"
  shows "silent P (deploy pf password tns_admin a)"
  unfolding deploy_def
  by (intro silent_and_then silent_deploy_call assms)

lemma silent_call_pre_generate:
  assumes "\<And>d rc. \<not> P (PreGenerate d rc)"
  shows "silent P (call_pre_generate pf directory remove_controller)"
  unfolding silent_def call_pre_generate_def
  by (auto simp add: emit_def assms split: prod.splits)

lemma silent_call_post_generate:
  assumes "\<And>d. \<not> P (PostGenerate d)"
  shows "silent P (call_post_generate pf directory)"
  unfolding silent_def call_post_generate_def
  by (auto simp add: emit_def assms split: prod.splits option.splits)

lemma silent_generate:
  assumes "\<And>call. \<not> P (Subprocess call)" and "\<And>d rc. \<not> P (PreGenerate d rc)"
    and "\<And>d. \<not> P (PostGenerate d)"
  shows "silent P (generate pf password tns_admin a)"
  unfolding generate_def
  by (intro silent_and_then silent_run_sqlcl silent_call_pre_generate silent_call_post_generate
      assms)

lemma silent_destroy:
  assumes "\<And>call. \<not> P (Subprocess call)"
  shows "silent P (destroy pf password tns_admin a)"
  unfolding destroy_def using assms by (rule silent_run_sqlcl)

lemma os_path_join_last: "b \<noteq> [] \<Longrightarrow> last (os_path_join a b) = last b"
  by (simp add: os_path_join_def)

lemma sqlnet_ora_not_secret: "os_path_join tns_admin ''sqlnet.ora'' \<noteq> ''.secret''"
proof
  assume "os_path_join tns_admin ''sqlnet.ora'' = ''.secret''"
  then have "last (os_path_join tns_admin ''sqlnet.ora'') = last ''.secret''" by simp
  then show False by (simp add: os_path_join_last)
qed

lemma silent_upd_sqlnet: "silent opens_secret (upd_sqlnet pf wallet)"
  unfolding silent_def upd_sqlnet_def Let_def
  by (auto simp add: emit_def sqlnet_ora_not_secret split: sum.splits option.splits)

lemma silent_resolve_tns: "silent opens_secret (resolve_tns pf a)"
proof (cases "flag_value (dbWallet a)")
  case (Some wallet)
  have "silent opens_secret (\<lambda>w'. Some (Inr (dirname pf (abspath pf wallet)), w'))"
    by (simp add: silent_def)
  then have "silent opens_secret (and_then (upd_sqlnet pf wallet)
      (\<lambda>_ w'. Some (Inr (dirname pf (abspath pf wallet)), w')))"
    by (intro silent_and_then silent_upd_sqlnet)
  then show ?thesis
    unfolding silent_def resolve_tns_def using Some by simp
next
  case None
  then show ?thesis
    unfolding silent_def resolve_tns_def Let_def
    by (auto simp add: emit_def split: option.splits if_splits)
qed

lemma silent_action:
  "silent opens_secret
     (case func a of
        Deploy \<Rightarrow> deploy pf password tns_admin a
      | Generate \<Rightarrow> generate pf password tns_admin a
      | Destroy \<Rightarrow> destroy pf password tns_admin a)"
  by (cases "func a") (simp_all add: silent_deploy silent_generate silent_destroy)

section \<open>Claims about the password\<close>

text \<open>
  The password in the words of the specification, for comparison: the first
  whitespace-delimited token on the last line of the secret file.
\<close>

definition spec_secret_password :: "string \<Rightarrow> string" where
  "spec_secret_password content = hd (split (last (file_lines content)))"

definition secret_example :: string where
  "secret_example = ''alpha beta'' @ [LF] @ ''gamma delta'' @ [LF]"

definition plain_args :: "string option \<Rightarrow> args" where
  "plain_args password =
     \<lparr>dbName = ''db'', dbUser = ''app'', dbPass = password, dbWallet = None, debug = False,
      func = Deploy\<rparr>"

lemma file_lines_secret_example:
  "file_lines secret_example = [''alpha beta'' @ [LF], ''gamma delta'' @ [LF]]"
  using file_lines_one_line [of "''alpha beta''" "''gamma delta'' @ [LF]"]
    file_lines_one_line [of "''gamma delta''" "[]"]
  by (simp add: secret_example_def file_lines_Nil)

lemma read_lines_secret_example:
  "read_lines ascii_host secret_example = ([''alpha beta'' @ [LF], ''gamma delta'' @ [LF]], True)"
  by (simp add: read_lines_def ascii_host_def file_lines_secret_example)
    (simp add: secret_example_def is_ascii_def)

lemma split_first_line_example: "split (''alpha beta'' @ [LF]) = [''alpha'', ''beta'']"
  by (simp add: split_def is_space_def)

lemma file_lines_first:
  assumes "file_lines content = line # rest"
  shows "fst (readline content) = line"
proof (cases "content = []")
  case True
  then show ?thesis using assms by (simp add: file_lines_Nil)
next
  case False
  then have "file_lines content = fst (readline content) # file_lines (snd (readline content))"
    by (subst file_lines.simps) simp
  then show ?thesis using assms by simp
qed

lemma read_secret_usable:
  assumes "disk w ''.secret'' = Some data" and "fst (read_lines pf data) = line # rest"
    and "split line \<noteq> []"
  shows "read_secret pf w = Some (Inr (last (split line)), emit (OpenFile ''.secret'' ''r'') w)"
proof (cases "decode pf data")
  case None
  then have "lines_before_error pf data = line # rest"
    using assms(2) by (simp add: read_lines_def)
  then show ?thesis
    using assms(1,3) None
    by (cases "split line") (simp_all add: read_secret_def Let_def emit_def last_token_def)
next
  case (Some content)
  then have "file_lines content = line # rest"
    using assms(2) by (simp add: read_lines_def)
  then have "fst (readline content) = line" by (rule file_lines_first)
  then show ?thesis
    using assms(1,3) Some
    by (cases "split line") (simp_all add: read_secret_def Let_def emit_def last_token_def)
qed

lemma split_Nil: "split [] = []"
  by (simp add: split_def)

lemma read_secret_unusable:
  assumes "disk w ''.secret'' = None \<or>
      (\<exists>data. disk w ''.secret'' = Some data \<and>
         (fst (read_lines pf data) = [] \<or> split (hd (fst (read_lines pf data))) = []))"
  shows "read_secret pf w = Some (Inl (SystemExit 1), emit (OpenFile ''.secret'' ''r'') w)"
  using assms
proof
  assume "disk w ''.secret'' = None"
  then show ?thesis by (simp add: read_secret_def Let_def emit_def)
next
  assume "\<exists>data. disk w ''.secret'' = Some data \<and>
         (fst (read_lines pf data) = [] \<or> split (hd (fst (read_lines pf data))) = [])"
  then obtain data where data: "disk w ''.secret'' = Some data"
    and bad: "fst (read_lines pf data) = [] \<or> split (hd (fst (read_lines pf data))) = []"
    by blast
  show ?thesis
  proof (cases "decode pf data")
    case None
    then have lines: "fst (read_lines pf data) = lines_before_error pf data"
      by (simp add: read_lines_def)
    show ?thesis
    proof (cases "lines_before_error pf data")
      case Nil
      then show ?thesis using data None by (simp add: read_secret_def Let_def emit_def)
    next
      case (Cons line rest)
      then have "split line = []" using bad lines by simp
      then show ?thesis
        using data None Cons by (simp add: read_secret_def Let_def emit_def last_token_def)
    qed
  next
    case (Some content)
    then have lines: "fst (read_lines pf data) = file_lines content"
      by (simp add: read_lines_def)
    have "split (fst (readline content)) = []"
    proof (cases "content = []")
      case True
      then show ?thesis by (simp add: split_Nil)
    next
      case False
      then have "file_lines content = fst (readline content) # file_lines (snd (readline content))"
        by (subst file_lines.simps) simp
      then show ?thesis using bad lines by simp
    qed
    then show ?thesis
      using data Some by (simp add: read_secret_def Let_def emit_def last_token_def)
  qed
qed

text \<open>
  C3, as the code has it. With no flag value (no flag, or an empty one) the password is
  the last token of the first line that reading \<^verbatim>\<open>.secret\<close> yields. If the file cannot be
  opened, yields no line, or has no token on its first line, the program ends with status 1
  and has started no external tool.
\<close>

theorem password_from_secret_file:
  assumes "flag_value (dbPass a) = None"
  shows "(\<forall>data line rest.
            disk w ''.secret'' = Some data \<and> fst (read_lines pf data) = line # rest
              \<and> split line \<noteq> [] \<longrightarrow>
            resolve_password pf a w =
              Some (Inr (last (split line)), emit (OpenFile ''.secret'' ''r'') w))
     \<and> (disk w ''.secret'' = None \<or>
          (\<exists>data. disk w ''.secret'' = Some data \<and>
             (fst (read_lines pf data) = [] \<or> split (hd (fst (read_lines pf data))) = []))
        \<longrightarrow>
          (\<exists>e w'. main pf a w = Some (Inl e, w') \<and> status_of e = 1
             \<and> filter is_subprocess (trace w') = filter is_subprocess (trace w)
             \<and> disk w' = disk w))"
proof -
  let ?w1 = "emit (OpenFile ''.secret'' ''r'') w"
  have rp: "resolve_password pf a w = read_secret pf w"
    using assms by (simp add: resolve_password_def)
  have first: "\<forall>data line rest.
            disk w ''.secret'' = Some data \<and> fst (read_lines pf data) = line # rest
              \<and> split line \<noteq> [] \<longrightarrow>
            resolve_password pf a w = Some (Inr (last (split line)), ?w1)"
    unfolding rp using read_secret_usable by blast
  have second: "disk w ''.secret'' = None \<or>
          (\<exists>data. disk w ''.secret'' = Some data \<and>
             (fst (read_lines pf data) = [] \<or> split (hd (fst (read_lines pf data))) = []))
        \<longrightarrow>
          (\<exists>e w'. main pf a w = Some (Inl e, w') \<and> status_of e = 1
             \<and> filter is_subprocess (trace w') = filter is_subprocess (trace w)
             \<and> disk w' = disk w)"
  proof
    assume "disk w ''.secret'' = None \<or>
          (\<exists>data. disk w ''.secret'' = Some data \<and>
             (fst (read_lines pf data) = [] \<or> split (hd (fst (read_lines pf data))) = []))"
    then have fail: "resolve_password pf a w = Some (Inl (SystemExit 1), ?w1)"
      unfolding rp by (rule read_secret_unusable)
    show "\<exists>e w'. main pf a w = Some (Inl e, w') \<and> status_of e = 1
             \<and> filter is_subprocess (trace w') = filter is_subprocess (trace w)
             \<and> disk w' = disk w"
    proof (cases "debug a")
      case True
      then have "main pf a w = Some (Inl AttributeError, w)" by (simp add: main_def)
      then show ?thesis by auto
    next
      case False
      then have "main pf a w = Some (Inl (SystemExit 1), ?w1)"
        using fail by (simp add: main_def and_then_def)
      moreover have "filter is_subprocess (trace ?w1) = filter is_subprocess (trace w)"
        by (simp add: emit_def)
      moreover have "disk ?w1 = disk w" by (simp add: emit_def)
      ultimately show ?thesis by auto
    qed
  qed
  show ?thesis using first second by blast
qed

theorem password_from_secret_file_witness:
  "flag_value (dbPass (plain_args None)) = None
   \<and> read_lines ascii_host secret_example
       = ([''alpha beta'' @ [LF], ''gamma delta'' @ [LF]], True)
   \<and> split (''alpha beta'' @ [LF]) = [''alpha'', ''beta'']
   \<and> resolve_password ascii_host (plain_args None)
       \<lparr>disk = [''.secret'' \<mapsto> secret_example], trace = []\<rparr>
       = Some (Inr ''beta'',
           \<lparr>disk = [''.secret'' \<mapsto> secret_example], trace = [OpenFile ''.secret'' ''r'']\<rparr>)
   \<and> (\<exists>e w'. main ascii_host (plain_args None) \<lparr>disk = Map.empty, trace = []\<rparr>
         = Some (Inl e, w') \<and> status_of e = 1
       \<and> filter is_subprocess (trace w') = [])"
proof -
  let ?a = "plain_args None"
  let ?w = "\<lparr>disk = [''.secret'' \<mapsto> secret_example], trace = []\<rparr>"
  let ?none = "\<lparr>disk = Map.empty, trace = []\<rparr> :: world"
  have h: "flag_value (dbPass ?a) = None" by (simp add: plain_args_def flag_value_def)
  have u1: "disk ?w ''.secret'' = Some secret_example" by simp
  have u2: "fst (read_lines ascii_host secret_example)
          = (''alpha beta'' @ [LF]) # [''gamma delta'' @ [LF]]"
    by (simp add: read_lines_secret_example)
  have u3: "split (''alpha beta'' @ [LF]) \<noteq> []"
    by (simp add: split_def is_space_def)
  have usable: "disk ?w ''.secret'' = Some secret_example
      \<and> fst (read_lines ascii_host secret_example)
          = (''alpha beta'' @ [LF]) # [''gamma delta'' @ [LF]]
      \<and> split (''alpha beta'' @ [LF]) \<noteq> []"
    using u1 u2 u3 by blast
  have all: "\<forall>data line rest.
      disk ?w ''.secret'' = Some data \<and> fst (read_lines ascii_host data) = line # rest
        \<and> split line \<noteq> [] \<longrightarrow>
      resolve_password ascii_host ?a ?w =
        Some (Inr (last (split line)), emit (OpenFile ''.secret'' ''r'') ?w)"
    using password_from_secret_file [OF h, of ?w ascii_host] by (rule conjunct1)
  have "resolve_password ascii_host ?a ?w =
      Some (Inr (last (split (''alpha beta'' @ [LF]))), emit (OpenFile ''.secret'' ''r'') ?w)"
    by (rule all [rule_format, of secret_example "''alpha beta'' @ [LF]"
          "[''gamma delta'' @ [LF]]", OF usable])
  then have one: "resolve_password ascii_host ?a ?w
       = Some (Inr ''beta'',
           \<lparr>disk = [''.secret'' \<mapsto> secret_example], trace = [OpenFile ''.secret'' ''r'']\<rparr>)"
    by (simp add: split_def is_space_def emit_def)
  have imp: "disk ?none ''.secret'' = None \<or>
      (\<exists>data. disk ?none ''.secret'' = Some data \<and>
         (fst (read_lines ascii_host data) = [] \<or>
          split (hd (fst (read_lines ascii_host data))) = []))
    \<longrightarrow>
      (\<exists>e w'. main ascii_host ?a ?none = Some (Inl e, w') \<and> status_of e = 1
         \<and> filter is_subprocess (trace w') = filter is_subprocess (trace ?none)
         \<and> disk w' = disk ?none)"
    using password_from_secret_file [OF h, of ?none ascii_host] by (rule conjunct2)
  have "\<exists>e w'. main ascii_host ?a ?none = Some (Inl e, w') \<and> status_of e = 1
       \<and> filter is_subprocess (trace w') = filter is_subprocess (trace ?none)
       \<and> disk w' = disk ?none"
    by (rule imp [THEN mp]) simp
  then have three: "\<exists>e w'. main ascii_host ?a ?none = Some (Inl e, w') \<and> status_of e = 1
       \<and> filter is_subprocess (trace w') = []"
    by auto
  show ?thesis
    using h read_lines_secret_example split_first_line_example one three by blast
qed

text \<open>
  C3 as the specification words it fails: of a secret file with two lines of two tokens
  each, the program takes the second token of the first line, not the first token of the
  second line.
\<close>

theorem password_from_secret_file_counterexample:
  "resolve_password ascii_host (plain_args None)
       \<lparr>disk = [''.secret'' \<mapsto> secret_example], trace = []\<rparr>
     = Some (Inr ''beta'',
         \<lparr>disk = [''.secret'' \<mapsto> secret_example], trace = [OpenFile ''.secret'' ''r'']\<rparr>)
   \<and> spec_secret_password secret_example = ''gamma''
   \<and> ''beta'' \<noteq> ''gamma''"
proof -
  let ?w = "\<lparr>disk = [''.secret'' \<mapsto> secret_example], trace = []\<rparr>"
  have "spec_secret_password secret_example = ''gamma''"
    by (simp add: spec_secret_password_def file_lines_secret_example split_def is_space_def)
  moreover have "read_secret ascii_host ?w =
      Some (Inr (last (split (''alpha beta'' @ [LF]))), emit (OpenFile ''.secret'' ''r'') ?w)"
    by (rule read_secret_usable [of ?w secret_example ascii_host _ "[''gamma delta'' @ [LF]]"])
      (simp_all add: read_lines_secret_example split_def is_space_def)
  then have "resolve_password ascii_host (plain_args None) ?w
     = Some (Inr ''beta'',
         \<lparr>disk = [''.secret'' \<mapsto> secret_example], trace = [OpenFile ''.secret'' ''r'']\<rparr>)"
    by (simp add: resolve_password_def plain_args_def flag_value_def split_def is_space_def
        emit_def)
  ultimately show ?thesis by simp
qed

text \<open>
  C8, as the code has it. With a flag value that is not empty, the password is that value,
  the step that resolves it leaves the world as it is, and no run of the program opens
  \<^verbatim>\<open>.secret\<close>.
\<close>

theorem password_from_flag:
  assumes "dbPass a = Some password" and "password \<noteq> []"
  shows "resolve_password pf a w = Some (Inr password, w)
     \<and> (\<forall>r w'. main pf a w = Some (r, w') \<longrightarrow>
          filter opens_secret (trace w') = filter opens_secret (trace w))"
proof -
  have rp: "resolve_password pf a = (\<lambda>w. Some (Inr password, w))"
    using assms by (auto simp add: resolve_password_def flag_value_def)
  have "silent opens_secret (resolve_password pf a)"
    unfolding rp by (simp add: silent_def)
  moreover have "\<And>password. silent opens_secret
      (and_then (resolve_tns pf a) (\<lambda>tns_admin.
        and_then
          (case func a of
             Deploy \<Rightarrow> deploy pf password tns_admin a
           | Generate \<Rightarrow> generate pf password tns_admin a
           | Destroy \<Rightarrow> destroy pf password tns_admin a)
          (\<lambda>_ w'. Some (Inl (SystemExit 0), w'))))"
    by (intro silent_and_then silent_resolve_tns silent_action) (simp add: silent_def)
  ultimately have "silent opens_secret
      (and_then (resolve_password pf a) (\<lambda>password.
        and_then (resolve_tns pf a) (\<lambda>tns_admin.
        and_then
          (case func a of
             Deploy \<Rightarrow> deploy pf password tns_admin a
           | Generate \<Rightarrow> generate pf password tns_admin a
           | Destroy \<Rightarrow> destroy pf password tns_admin a)
          (\<lambda>_ w'. Some (Inl (SystemExit 0), w')))))"
    by (rule silent_and_then)
  then have "\<forall>r w'. main pf a w = Some (r, w') \<longrightarrow>
          filter opens_secret (trace w') = filter opens_secret (trace w)"
    unfolding silent_def main_def by (cases "debug a") auto
  then show ?thesis by (simp add: rp)
qed

theorem password_from_flag_witness:
  "dbPass (plain_args (Some ''tiger'')) = Some ''tiger'' \<and> ''tiger'' \<noteq> []
   \<and> resolve_password ascii_host (plain_args (Some ''tiger''))
        \<lparr>disk = [''.secret'' \<mapsto> secret_example], trace = []\<rparr>
      = Some (Inr ''tiger'', \<lparr>disk = [''.secret'' \<mapsto> secret_example], trace = []\<rparr>)
   \<and> (\<exists>w'. main ascii_host (plain_args (Some ''tiger''))
          \<lparr>disk = [''.secret'' \<mapsto> secret_example], trace = []\<rparr> = Some (Inl (SystemExit 1), w')
        \<and> filter opens_secret (trace w') = [])"
proof -
  let ?a = "plain_args (Some ''tiger'')"
  let ?w = "\<lparr>disk = [''.secret'' \<mapsto> secret_example], trace = []\<rparr>"
  have h1: "dbPass ?a = Some ''tiger''" by (simp add: plain_args_def)
  have h2: "''tiger'' \<noteq> []" by simp
  note inst = password_from_flag [OF h1 h2, of ascii_host ?w]
  have run: "main ascii_host ?a ?w = Some (Inl (SystemExit 1), ?w)"
    by (simp add: main_def and_then_def resolve_password_def flag_value_def resolve_tns_def
        plain_args_def ascii_host_def)
  have "filter opens_secret (trace ?w) = filter opens_secret (trace ?w)"
    using inst run by blast
  then have "\<exists>w'. main ascii_host ?a ?w = Some (Inl (SystemExit 1), w')
        \<and> filter opens_secret (trace w') = []"
    using run by simp
  moreover have "resolve_password ascii_host ?a ?w = Some (Inr ''tiger'', ?w)"
    using inst by (rule conjunct1)
  ultimately show ?thesis using h1 h2 by blast
qed

text \<open>
  C8 as the specification words it fails when the flag is given with an empty value
  (\<^verbatim>\<open>--dbPass ""\<close>): the test of the flag is false, the secret file is opened and the
  password comes from it.
\<close>

theorem password_from_flag_counterexample:
  "dbPass (plain_args (Some [])) = Some []
   \<and> resolve_password ascii_host (plain_args (Some []))
        \<lparr>disk = [''.secret'' \<mapsto> secret_example], trace = []\<rparr>
      = Some (Inr ''beta'',
          \<lparr>disk = [''.secret'' \<mapsto> secret_example], trace = [OpenFile ''.secret'' ''r'']\<rparr>)"
proof -
  let ?w = "\<lparr>disk = [''.secret'' \<mapsto> secret_example], trace = []\<rparr>"
  have "read_secret ascii_host ?w =
      Some (Inr (last (split (''alpha beta'' @ [LF]))), emit (OpenFile ''.secret'' ''r'') ?w)"
    by (rule read_secret_usable [of ?w secret_example ascii_host _ "[''gamma delta'' @ [LF]]"])
      (simp_all add: read_lines_secret_example split_def is_space_def)
  then show ?thesis
    by (simp add: resolve_password_def plain_args_def flag_value_def split_def is_space_def
        emit_def)
qed

section \<open>Claims about the deploy action\<close>

text \<open>
  What the deploy action may do to the world: test one of the four controller files for
  existence, and start the tool. The files after a list of such events are the files that
  the runs of the tool among them leave, one after the other.
\<close>

fun deploy_event :: "event \<Rightarrow> bool" where
  "deploy_event (PathExists path) =
     (path \<in> set [''admin/controller.xml'', ''schema/controller.xml'', ''data/controller.xml'',
                  ''apex/controller.xml''])"
| "deploy_event (Subprocess call) = True"
| "deploy_event _ = False"

fun tool_effect :: "platform \<Rightarrow> fs \<Rightarrow> event \<Rightarrow> fs" where
  "tool_effect pf files (Subprocess call) = snd (sql pf call files)"
| "tool_effect pf files _ = files"

definition tool_effects :: "platform \<Rightarrow> event list \<Rightarrow> fs \<Rightarrow> fs" where
  "tool_effects pf evs files = foldl (tool_effect pf) files evs"

definition tool_only :: "platform \<Rightarrow> 'a step \<Rightarrow> bool" where
  "tool_only pf m \<longleftrightarrow>
     (\<forall>w. \<exists>r w' evs. m w = Some (r, w') \<and> trace w' = trace w @ evs
        \<and> list_all deploy_event evs \<and> disk w' = tool_effects pf evs (disk w))"

lemma tool_only_and_then:
  assumes "tool_only pf m" and "\<And>x. tool_only pf (k x)"
  shows "tool_only pf (and_then m k)"
  unfolding tool_only_def
proof
  fix w
  obtain r1 w1 evs1 where first: "m w = Some (r1, w1)" "trace w1 = trace w @ evs1"
    "list_all deploy_event evs1" "disk w1 = tool_effects pf evs1 (disk w)"
    using assms(1) unfolding tool_only_def by blast
  show "\<exists>r w' evs. and_then m k w = Some (r, w') \<and> trace w' = trace w @ evs
      \<and> list_all deploy_event evs \<and> disk w' = tool_effects pf evs (disk w)"
  proof (cases r1)
    case (Inl e)
    then have "and_then m k w = Some (Inl e, w1)" using first(1) by (simp add: and_then_def)
    then show ?thesis using first(2,3,4) by blast
  next
    case (Inr x)
    obtain r w' evs where rest: "k x w1 = Some (r, w')" "trace w' = trace w1 @ evs"
      "list_all deploy_event evs" "disk w' = tool_effects pf evs (disk w1)"
      using assms(2) [of x] unfolding tool_only_def by blast
    have "and_then m k w = Some (r, w')" using first(1) Inr rest(1) by (simp add: and_then_def)
    moreover have "trace w' = trace w @ (evs1 @ evs)" using first(2) rest(2) by simp
    moreover have "list_all deploy_event (evs1 @ evs)" using first(3) rest(3) by simp
    moreover have "disk w' = tool_effects pf (evs1 @ evs) (disk w)"
      using first(4) rest(4) by (simp add: tool_effects_def)
    ultimately show ?thesis by blast
  qed
qed

lemma run_sqlcl_world:
  "\<exists>r. run_sqlcl pf run_as password service path cmd tns_admin w =
     Some (r, emit (Subprocess (sqlcl_call pf run_as password service path cmd tns_admin))
       (w\<lparr>disk := snd (sql pf (sqlcl_call pf run_as password service path cmd tns_admin)
          (disk w))\<rparr>))"
  by (simp add: run_sqlcl_def Let_def split: sum.splits option.splits)

lemma tool_only_run_sqlcl:
  "tool_only pf (run_sqlcl pf run_as password service path cmd tns_admin)"
  unfolding tool_only_def
proof
  fix w
  let ?call = "sqlcl_call pf run_as password service path cmd tns_admin"
  let ?w' = "emit (Subprocess ?call) (w\<lparr>disk := snd (sql pf ?call (disk w))\<rparr>)"
  obtain r where "run_sqlcl pf run_as password service path cmd tns_admin w = Some (r, ?w')"
    using run_sqlcl_world by blast
  moreover have "trace ?w' = trace w @ [Subprocess ?call]" by (simp add: emit_def)
  moreover have "list_all deploy_event [Subprocess ?call]" by simp
  moreover have "disk ?w' = tool_effects pf [Subprocess ?call] (disk w)"
    by (simp add: emit_def tool_effects_def)
  ultimately show "\<exists>r w' evs. run_sqlcl pf run_as password service path cmd tns_admin w
        = Some (r, w') \<and> trace w' = trace w @ evs
      \<and> list_all deploy_event evs \<and> disk w' = tool_effects pf evs (disk w)"
    by blast
qed

lemma tool_only_deploy_call:
  assumes "deploy_event (PathExists (os_path_join path ''controller.xml''))"
  shows "tool_only pf (deploy_call pf path user password tns_admin a)"
  unfolding tool_only_def
proof
  fix w
  let ?e = "PathExists (os_path_join path ''controller.xml'')"
  let ?w1 = "emit ?e w"
  have t1: "trace ?w1 = trace w @ [?e]" and d1: "disk ?w1 = disk w" by (simp_all add: emit_def)
  show "\<exists>r w' evs. deploy_call pf path user password tns_admin a w = Some (r, w')
      \<and> trace w' = trace w @ evs
      \<and> list_all deploy_event evs \<and> disk w' = tool_effects pf evs (disk w)"
  proof (cases "disk ?w1 (os_path_join path ''controller.xml'') \<noteq> None")
    case False
    then have "deploy_call pf path user password tns_admin a w = Some (Inr (), ?w1)"
      by (simp add: deploy_call_def Let_def)
    moreover have "list_all deploy_event [?e]" using assms by simp
    moreover have "disk ?w1 = tool_effects pf [?e] (disk w)"
      by (simp add: d1 tool_effects_def)
    ultimately show ?thesis using t1 by blast
  next
    case True
    then have call: "deploy_call pf path user password tns_admin a w =
        run_sqlcl pf user password (dbName a) path ''lb update -changelog-file controller.xml;''
          tns_admin ?w1"
      by (simp add: deploy_call_def Let_def)
    obtain r w' evs where run: "run_sqlcl pf user password (dbName a) path
          ''lb update -changelog-file controller.xml;'' tns_admin ?w1 = Some (r, w')"
      "trace w' = trace ?w1 @ evs" "list_all deploy_event evs"
      "disk w' = tool_effects pf evs (disk ?w1)"
      using tool_only_run_sqlcl unfolding tool_only_def by blast
    have "trace w' = trace w @ (?e # evs)" using run(2) t1 by simp
    moreover have "list_all deploy_event (?e # evs)" using run(3) assms by simp
    moreover have "disk w' = tool_effects pf (?e # evs) (disk w)"
      using run(4) d1 by (simp add: tool_effects_def)
    ultimately show ?thesis using call run(1) by metis
  qed
qed

lemma tool_only_deploy: "tool_only pf (deploy pf password tns_admin a)"
  unfolding deploy_def
  by (intro tool_only_and_then tool_only_deploy_call) (simp_all add: os_path_join_def)

lemma tool_effects_idle:
  "\<forall>call files. snd (sql pf call files) = files \<Longrightarrow> tool_effects pf evs files = files"
proof (induction evs arbitrary: files)
  case Nil
  then show ?case by (simp add: tool_effects_def)
next
  case (Cons e evs)
  have "tool_effect pf files e = files" using Cons.prems by (cases e) simp_all
  then show ?case using Cons by (simp add: tool_effects_def)
qed

lemma deploy_call_absent:
  "disk w (os_path_join path ''controller.xml'') = None \<Longrightarrow>
   deploy_call pf path user password tns_admin a w =
     Some (Inr (), emit (PathExists (os_path_join path ''controller.xml'')) w)"
  by (simp add: deploy_call_def Let_def emit_def)

lemma deploy_call_present:
  "disk w (os_path_join path ''controller.xml'') \<noteq> None \<Longrightarrow>
   deploy_call pf path user password tns_admin a w =
     run_sqlcl pf user password (dbName a) path ''lb update -changelog-file controller.xml;''
       tns_admin (emit (PathExists (os_path_join path ''controller.xml'')) w)"
  by (simp add: deploy_call_def Let_def emit_def)

text \<open>Of the four controller files, only that of the admin area is present.\<close>

definition only_admin :: "fs \<Rightarrow> bool" where
  "only_admin files \<longleftrightarrow>
     files ''admin/controller.xml'' \<noteq> None \<and> files ''schema/controller.xml'' = None \<and>
     files ''data/controller.xml'' = None \<and> files ''apex/controller.xml'' = None"

text \<open>
  C9. Let only the controller file of the admin area be present, when the deploy action
  starts and in the files that the run of the tool leaves. Then the deploy action returns or
  raises, and in its run \<^verbatim>\<open>subprocess.run\<close> is called exactly once: with the command
  \<^verbatim>\<open>sql /nolog\<close>, the working directory \<^verbatim>\<open>./admin\<close>, and an input that connects as
  \<^verbatim>\<open>ADMIN\<close> and updates from \<^verbatim>\<open>controller.xml\<close>.
\<close>

theorem deploy_admin_only:
  assumes "only_admin (disk w)"
    and "only_admin (snd (sql pf
           (sqlcl_call pf ''ADMIN'' password (dbName a) ''admin''
              ''lb update -changelog-file controller.xml;'' tns_admin) (disk w)))"
  shows "\<exists>r w' call. deploy pf password tns_admin a w = Some (r, w')
     \<and> filter is_subprocess (trace w') = filter is_subprocess (trace w) @ [Subprocess call]
     \<and> argv call = [''sql'', ''/nolog''] \<and> cwd call = ''./admin''
     \<and> input call = sql_cmd ''ADMIN'' password (dbName a)
         ''lb update -changelog-file controller.xml;''
     \<and> (\<exists>rest. input call = [LF] @ replicate 8 (CHR '' '') @ ''conn ADMIN/'' @ rest)"
proof -
  let ?call = "sqlcl_call pf ''ADMIN'' password (dbName a) ''admin''
      ''lb update -changelog-file controller.xml;'' tns_admin"
  let ?user = "''ADMIN['' @ dbUser a @ '']''"
  define w1 where "w1 = emit (PathExists ''admin/controller.xml'') w"
  define w2 where "w2 = emit (Subprocess ?call) (w1\<lparr>disk := snd (sql pf ?call (disk w1))\<rparr>)"
  define w3 where "w3 = emit (PathExists ''schema/controller.xml'') w2"
  define w4 where "w4 = emit (PathExists ''data/controller.xml'') w3"
  define w5 where "w5 = emit (PathExists ''apex/controller.xml'') w4"
  have d1: "disk w1 = disk w" by (simp add: w1_def emit_def)
  have d2: "disk w2 = snd (sql pf ?call (disk w))" by (simp add: w2_def emit_def d1)
  have d3: "disk w3 = disk w2" by (simp add: w3_def emit_def)
  have d4: "disk w4 = disk w2" by (simp add: w4_def emit_def d3)
  have present: "disk w (os_path_join ''admin'' ''controller.xml'') \<noteq> None"
    using assms(1) by (simp add: only_admin_def os_path_join_def)
  have absent: "disk w2 (os_path_join ''schema'' ''controller.xml'') = None"
    "disk w3 (os_path_join ''data'' ''controller.xml'') = None"
    "disk w4 (os_path_join ''apex'' ''controller.xml'') = None"
    using assms(2) by (simp_all add: only_admin_def os_path_join_def d2 d3 d4)
  obtain r1 where run: "run_sqlcl pf ''ADMIN'' password (dbName a) ''admin''
      ''lb update -changelog-file controller.xml;'' tns_admin w1 = Some (r1, w2)"
    unfolding w2_def using run_sqlcl_world by blast
  have c1: "deploy_call pf ''admin'' ''ADMIN'' password tns_admin a w = Some (r1, w2)"
    using deploy_call_present [OF present, of pf "''ADMIN''" password tns_admin a] run
    by (simp add: w1_def os_path_join_def)
  have c2: "deploy_call pf ''schema'' ?user password tns_admin a w2 = Some (Inr (), w3)"
    using deploy_call_absent [OF absent(1), of pf ?user password tns_admin a]
    by (simp add: w3_def os_path_join_def)
  have c3: "deploy_call pf ''data'' ?user password tns_admin a w3 = Some (Inr (), w4)"
    using deploy_call_absent [OF absent(2), of pf ?user password tns_admin a]
    by (simp add: w4_def os_path_join_def)
  have c4: "deploy_call pf ''apex'' ?user password tns_admin a w4 = Some (Inr (), w5)"
    using deploy_call_absent [OF absent(3), of pf ?user password tns_admin a]
    by (simp add: w5_def os_path_join_def)
  have t2: "filter is_subprocess (trace w2) = filter is_subprocess (trace w) @ [Subprocess ?call]"
    by (simp add: w2_def w1_def emit_def)
  have t5: "filter is_subprocess (trace w5) = filter is_subprocess (trace w) @ [Subprocess ?call]"
    using t2 by (simp add: w5_def w4_def w3_def emit_def)
  have outcome: "\<exists>r w'. deploy pf password tns_admin a w = Some (r, w')
     \<and> filter is_subprocess (trace w') = filter is_subprocess (trace w) @ [Subprocess ?call]"
  proof (cases r1)
    case (Inl e)
    then have "deploy pf password tns_admin a w = Some (Inl e, w2)"
      using c1 by (simp add: deploy_def and_then_def)
    then show ?thesis using t2 by blast
  next
    case (Inr u)
    then have "deploy pf password tns_admin a w = Some (Inr (), w5)"
      using c1 c2 c3 c4 by (simp add: deploy_def and_then_def)
    then show ?thesis using t5 by blast
  qed
  have shape: "argv ?call = [''sql'', ''/nolog''] \<and> cwd ?call = ''./admin''
     \<and> input ?call = sql_cmd ''ADMIN'' password (dbName a)
         ''lb update -changelog-file controller.xml;''"
    by (simp add: sqlcl_call_def Let_def)
  have "input ?call = [LF] @ replicate 8 (CHR '' '') @ ''conn ADMIN/'' @
      (password @ ''@'' @ dbName a @ ''_high'' @ [LF] @ replicate 8 (CHR '' '') @
       ''lb update -changelog-file controller.xml;'' @ [LF] @ replicate 4 (CHR '' ''))"
    by (simp add: sqlcl_call_def Let_def sql_cmd_def)
  then have role: "\<exists>rest. input ?call = [LF] @ replicate 8 (CHR '' '') @ ''conn ADMIN/'' @ rest"
    by blast
  show ?thesis using outcome shape role by blast
qed

text \<open>An example: a tool that leaves the files alone and ends with code 0 and no marker.\<close>

definition clean_run :: completed where
  "clean_run = \<lparr>returncode = 0, stdout = ''Update has been successful'' @ [LF], stderr = []\<rparr>"

definition admin_world :: world where
  "admin_world = \<lparr>disk = [''admin/controller.xml'' \<mapsto> ''<databaseChangeLog/>'' @ [LF]],
     trace = []\<rparr>"

lemma sql_tool_host: "sql (tool_host result) call files = (Inr result, files)"
  by (simp add: tool_host_def ascii_host_def)

lemma only_admin_admin_world: "only_admin (disk admin_world)"
  by (simp add: only_admin_def admin_world_def)

theorem deploy_admin_only_witness:
  "only_admin (disk admin_world)
   \<and> snd (sql (tool_host clean_run)
        (sqlcl_call (tool_host clean_run) ''ADMIN'' ''tiger'' (dbName (plain_args (Some ''tiger'')))
           ''admin'' ''lb update -changelog-file controller.xml;'' ''/wallet'') (disk admin_world))
      = disk admin_world
   \<and> (\<exists>r w' call. deploy (tool_host clean_run) ''tiger'' ''/wallet'' (plain_args (Some ''tiger''))
          admin_world = Some (r, w')
        \<and> filter is_subprocess (trace w') = [Subprocess call]
        \<and> argv call = [''sql'', ''/nolog''] \<and> cwd call = ''./admin'')"
proof -
  let ?a = "plain_args (Some ''tiger'')"
  let ?pf = "tool_host clean_run"
  have h1: "only_admin (disk admin_world)" by (rule only_admin_admin_world)
  have same: "snd (sql ?pf (sqlcl_call ?pf ''ADMIN'' ''tiger'' (dbName ?a) ''admin''
      ''lb update -changelog-file controller.xml;'' ''/wallet'') (disk admin_world))
      = disk admin_world"
    by (simp add: sql_tool_host)
  have h2: "only_admin (snd (sql ?pf (sqlcl_call ?pf ''ADMIN'' ''tiger'' (dbName ?a) ''admin''
      ''lb update -changelog-file controller.xml;'' ''/wallet'') (disk admin_world)))"
    unfolding same by (rule h1)
  have empty: "filter is_subprocess (trace admin_world) = []" by (simp add: admin_world_def)
  have "\<exists>r w' call. deploy ?pf ''tiger'' ''/wallet'' ?a admin_world = Some (r, w')
        \<and> filter is_subprocess (trace w') = [Subprocess call]
        \<and> argv call = [''sql'', ''/nolog''] \<and> cwd call = ''./admin''"
    using deploy_admin_only [OF h1 h2] unfolding empty by auto
  then show ?thesis using h1 same by blast
qed

text \<open>
  C10. Every run of the deploy action returns or raises, and all it has done to the world
  by then is a list of events of two kinds: a test that the controller file of one of the
  four areas exists, and a start of the tool. There is no pass of \<^verbatim>\<open>pre_generate\<close> or
  \<^verbatim>\<open>post_generate\<close> and no file opened among them. The files at the end are the files at
  the start as the runs of the tool have left them: if the tool leaves the files alone, they
  are the files at the start.
\<close>

theorem deploy_changes_no_file:
  "\<exists>r w' evs. deploy pf password tns_admin a w = Some (r, w')
     \<and> trace w' = trace w @ evs \<and> list_all deploy_event evs
     \<and> disk w' = tool_effects pf evs (disk w)
     \<and> ((\<forall>call files. snd (sql pf call files) = files) \<longrightarrow> disk w' = disk w)"
proof -
  obtain r w' evs where run: "deploy pf password tns_admin a w = Some (r, w')"
    "trace w' = trace w @ evs" "list_all deploy_event evs"
    "disk w' = tool_effects pf evs (disk w)"
    using tool_only_deploy [of pf password tns_admin a] unfolding tool_only_def by blast
  have "(\<forall>call files. snd (sql pf call files) = files) \<longrightarrow> disk w' = disk w"
    using run(4) tool_effects_idle [of pf evs "disk w"] by simp
  then show ?thesis using run by blast
qed

theorem deploy_changes_no_file_witness:
  "(\<forall>call files. snd (sql (tool_host clean_run) call files) = files)
   \<and> (\<exists>r w' evs. deploy (tool_host clean_run) ''tiger'' ''/wallet'' (plain_args (Some ''tiger''))
          admin_world = Some (r, w')
        \<and> trace w' = evs \<and> list_all deploy_event evs \<and> disk w' = disk admin_world)"
proof -
  have idle: "\<forall>call files. snd (sql (tool_host clean_run) call files) = files"
    by (simp add: sql_tool_host)
  have "\<exists>r w' evs. deploy (tool_host clean_run) ''tiger'' ''/wallet''
          (plain_args (Some ''tiger'')) admin_world = Some (r, w')
        \<and> trace w' = trace admin_world @ evs \<and> list_all deploy_event evs
        \<and> disk w' = disk admin_world"
    using deploy_changes_no_file [of "tool_host clean_run" "''tiger''" "''/wallet''"
        "plain_args (Some ''tiger'')" admin_world] idle
    by blast
  then have "\<exists>r w' evs. deploy (tool_host clean_run) ''tiger'' ''/wallet''
          (plain_args (Some ''tiger'')) admin_world = Some (r, w')
        \<and> trace w' = evs \<and> list_all deploy_event evs \<and> disk w' = disk admin_world"
    by (simp add: admin_world_def)
  then show ?thesis using idle by blast
qed

end
